theory Spec2Isabelle
  imports Complex_Main "HOL-Library.AList"
begin

section \<open>Data model of scripts.js\<close>

text \<open>
  Node ids come from \<open>nodeIdCounter++\<close> and are natural numbers. Edge weights are the
  integers produced by \<open>parseInt(...) || 1\<close>, the literal \<open>1\<close>, or the sample table; they
  are modelled as unbounded integers (JavaScript numbers are exact on integers below
  \<open>2^53\<close>). A node's \<open>distance\<close> is \<open>Infinity\<close> or such an integer. Positions are only
  stored, never computed with.
\<close>

datatype node_vstate = Unvisited | InQueue | Current | Visited

datatype edge_vstate = Default | Active | EdgeVisited

datatype distance = Infinity | Finite int

record node =
  node_id :: nat
  node_x :: real
  node_y :: real
  node_state :: node_vstate
  node_distance :: distance
  node_label :: string

record edge =
  edge_from :: nat
  edge_to :: nat
  edge_weight :: int
  edge_state :: edge_vstate

text \<open>
  \<open>adjacencyList\<close> is a JavaScript \<open>Map\<close> from node id to an array of
  \<open>{node, weight}\<close> objects: an association list, read with \<open>map_of\<close>, written with
  \<open>AList.update\<close> (replace in place, or append a new key) and \<open>AList.delete\<close>.
\<close>

type_synonym adjacency = "(nat \<times> (nat \<times> int) list) list"

text \<open>
  The objects yielded by the generators. \<open>visit\<close> and \<open>enqueue\<close> objects may carry an
  \<open>edge: {from, to}\<close> and a \<open>distance\<close> (absent: \<open>None\<close>); \<open>setDistance\<close> always carries
  its distance.
\<close>

datatype event =
    Visit nat "(nat \<times> nat) option" "int option"
  | Enqueue nat "(nat \<times> nat) option" "int option"
  | SetDistance nat int

fun event_node :: "event \<Rightarrow> nat" where
  "event_node (Visit n e d) = n"
| "event_node (Enqueue n e d) = n"
| "event_node (SetDistance n d) = n"


datatype algorithm_choice = Bfs | Dfs | Dijkstra

datatype graph_type = Directed | Undirected

text \<open>The two form controls the modelled functions read: \<open>algorithmSelect.value\<close> and
  \<open>graphTypeSelect.value\<close>.\<close>

record controls =
  algorithm :: algorithm_choice
  graphType :: graph_type

text \<open>
  The module-level variables. \<open>selectedNode\<close> holds a node object of which only the id
  is read by the functions below, so its id is kept. \<open>orderList\<close> is the list of labels
  appended to the traversal-order element.
\<close>

record graph_state =
  nodes :: "node list"
  edges :: "edge list"
  adjacencyList :: adjacency
  startNode :: "nat option"
  selectedNode :: "nat option"
  isRunning :: bool
  isPaused :: bool
  animationQueue :: "event list"
  currentStep :: nat
  nodeIdCounter :: nat
  orderList :: "string list"

definition initial_state :: graph_state where
  "initial_state =
     \<lparr>nodes = [], edges = [], adjacencyList = [], startNode = None, selectedNode = None,
      isRunning = False, isPaused = False, animationQueue = [], currentStep = 0,
      nodeIdCounter = 0, orderList = []\<rparr>"

datatype js_error = TypeError

section \<open>Graph store\<close>

fun decimal :: "nat \<Rightarrow> string" where
  "decimal n =
     (if n < 10 then [char_of (48 + n)] else decimal (n div 10) @ [char_of (48 + n mod 10)])"

declare decimal.simps [simp del]

text \<open>\<open>String.fromCharCode(65 + nodes.length % 26) +
  (nodes.length >= 26 ? Math.floor(nodes.length / 26) : '')\<close>\<close>

definition make_label :: "nat \<Rightarrow> string" where
  "make_label len =
     char_of (65 + len mod 26) # (if len \<ge> 26 then decimal (len div 26) else [])"

definition addNode :: "real \<Rightarrow> real \<Rightarrow> graph_state \<Rightarrow> graph_state" where
  "addNode x y s =
     (let n = \<lparr>node_id = nodeIdCounter s, node_x = x, node_y = y, node_state = Unvisited,
               node_distance = Infinity, node_label = make_label (length (nodes s))\<rparr>
      in s\<lparr>nodeIdCounter := nodeIdCounter s + 1,
            nodes := nodes s @ [n],
            adjacencyList := AList.update (node_id n) [] (adjacencyList s)\<rparr>)"

text \<open>The predicate of \<open>edges.find\<close> in \<open>createEdge\<close> and \<open>executeStep\<close>.\<close>

definition edge_matches :: "controls \<Rightarrow> nat \<Rightarrow> nat \<Rightarrow> edge \<Rightarrow> bool" where
  "edge_matches c a b e \<longleftrightarrow>
     (edge_from e = a \<and> edge_to e = b) \<or>
     (graphType c = Undirected \<and> edge_from e = b \<and> edge_to e = a)"

text \<open>
  \<open>createEdge(from, to, weight)\<close> reads only the ids of the two node objects.
  \<open>adjacencyList.get(id).push(...)\<close> throws a \<open>TypeError\<close> when the id has no entry
  (after \<open>edges.push\<close> has run; the model returns the error alone).
\<close>

definition createEdge :: "controls \<Rightarrow> nat \<Rightarrow> nat \<Rightarrow> int \<Rightarrow> graph_state \<Rightarrow> js_error + graph_state" where
  "createEdge c from to weight s =
     (if \<not> list_ex (edge_matches c from to) (edges s) then
        (case map_of (adjacencyList s) from of
           None \<Rightarrow> Inl TypeError
         | Some fs \<Rightarrow>
            (let es = edges s @ [\<lparr>edge_from = from, edge_to = to, edge_weight = weight,
                                  edge_state = Default\<rparr>];
                 adj1 = AList.update from (fs @ [(to, weight)]) (adjacencyList s)
             in if graphType c = Undirected then
                  (case map_of adj1 to of
                     None \<Rightarrow> Inl TypeError
                   | Some ts \<Rightarrow>
                       Inr (s\<lparr>edges := es,
                              adjacencyList := AList.update to (ts @ [(from, weight)]) adj1,
                              selectedNode := None\<rparr>))
                else Inr (s\<lparr>edges := es, adjacencyList := adj1, selectedNode := None\<rparr>)))
      else Inr (s\<lparr>selectedNode := None\<rparr>))"

definition setStartNode :: "nat \<Rightarrow> graph_state \<Rightarrow> graph_state" where
  "setStartNode i s = s\<lparr>startNode := Some i\<rparr>"

text \<open>\<open>deleteNode(node)\<close> reads only \<open>node.id\<close>.\<close>

definition deleteNode :: "nat \<Rightarrow> graph_state \<Rightarrow> graph_state" where
  "deleteNode i s =
     s\<lparr>nodes := filter (\<lambda>n. node_id n \<noteq> i) (nodes s),
       edges := filter (\<lambda>e. edge_from e \<noteq> i \<and> edge_to e \<noteq> i) (edges s),
       adjacencyList :=
         map (\<lambda>(key, neighbors). (key, filter (\<lambda>(n, w). n \<noteq> i) neighbors))
           (AList.delete i (adjacencyList s)),
       startNode := (if startNode s = Some i then None else startNode s)\<rparr>"

definition resetTraversal :: "graph_state \<Rightarrow> graph_state" where
  "resetTraversal s =
     s\<lparr>isRunning := False, isPaused := False, currentStep := 0, animationQueue := [],
       nodes := map (\<lambda>n. n\<lparr>node_state := Unvisited, node_distance := Infinity\<rparr>) (nodes s),
       edges := map (\<lambda>e. e\<lparr>edge_state := Default\<rparr>) (edges s),
       orderList := []\<rparr>"

definition clearGraph :: "graph_state \<Rightarrow> graph_state" where
  "clearGraph s =
     resetTraversal (s\<lparr>nodes := [], edges := [], adjacencyList := [], startNode := None,
                       selectedNode := None, nodeIdCounter := 0\<rparr>)"

section \<open>Traversal generators\<close>

text \<open>\<open>adjacencyList.get(current) || []\<close>\<close>

definition neighbors_of :: "adjacency \<Rightarrow> nat \<Rightarrow> (nat \<times> int) list" where
  "neighbors_of adj u = (case map_of adj u of None \<Rightarrow> [] | Some ns \<Rightarrow> ns)"

text \<open>
  Each generator is modelled by the list of objects it yields, in order. The \<open>while\<close>
  loop is a recursive function of the loop variables; the keys of the adjacency map not
  yet visited, then the length of the frontier, decrease.
\<close>

lemma unvisited_keys_decrease:
  "current \<notin> visited \<Longrightarrow> current \<in> fst ` set adj \<Longrightarrow>
     card (fst ` set adj - insert current visited) < card (fst ` set adj - visited)"
  by (rule psubset_card_mono) auto

lemma neighbors_of_no_key: "current \<notin> fst ` set adj \<Longrightarrow> neighbors_of adj current = []"
  using map_of_eq_None_iff[of adj current] by (simp add: neighbors_of_def)

lemma visit_decreases:
  assumes "current \<notin> visited" and "length rest < length frontier"
    and "current \<notin> fst ` set adj \<Longrightarrow> pushed = []"
  shows "((adj, insert current visited, rest @ pushed), (adj, visited, frontier))
           \<in> measures [\<lambda>(adj, visited, q). card (fst ` set adj - visited),
                        \<lambda>(adj, visited, q). length q]"
proof (cases "current \<in> fst ` set adj")
  case True
  with assms(1) show ?thesis using unvisited_keys_decrease[of current visited adj] by simp
next
  case False
  then have "fst ` set adj - insert current visited = fst ` set adj - visited" by auto
  with False assms show ?thesis by simp
qed

function bfs_loop :: "adjacency \<Rightarrow> nat set \<Rightarrow> nat list \<Rightarrow> event list" where
  "bfs_loop adj visited [] = []"
| "bfs_loop adj visited (current # queue) =
     (if current \<in> visited then bfs_loop adj visited queue
      else (let visited' = insert current visited;
                offered = filter (\<lambda>(neighbor, w). neighbor \<notin> visited') (neighbors_of adj current)
            in Visit current None None
               # map (\<lambda>(neighbor, w). Enqueue neighbor (Some (current, neighbor)) None) offered
               @ bfs_loop adj visited' (queue @ map fst offered)))"
  by pat_completeness auto

termination bfs_loop
proof (relation "measures [\<lambda>(adj, visited, q). card (fst ` set adj - visited),
                            \<lambda>(adj, visited, q). length q]", goal_cases)
  case 1
  show ?case by simp
next
  case (2 adj visited current queue)
  show ?case by simp
next
  case (3 adj visited current queue visited' offered)
  then show ?case
    using visit_decreases[of current visited queue "current # queue" adj "map fst offered"]
    by (simp add: neighbors_of_no_key)
qed

declare bfs_loop.simps [simp del]

definition bfs :: "adjacency \<Rightarrow> nat \<Rightarrow> event list" where
  "bfs adj start = bfs_loop adj {} [start]"

function dfs_loop :: "adjacency \<Rightarrow> nat set \<Rightarrow> nat list \<Rightarrow> event list" where
  "dfs_loop adj visited stack =
     (if stack = [] then []
      else (let current = last stack; stack' = butlast stack
            in if current \<in> visited then dfs_loop adj visited stack'
               else (let visited' = insert current visited;
                         offered = filter (\<lambda>(neighbor, w). neighbor \<notin> visited')
                                     (rev (neighbors_of adj current))
                     in Visit current None None
                        # map (\<lambda>(neighbor, w). Enqueue neighbor (Some (current, neighbor)) None)
                            offered
                        @ dfs_loop adj visited' (stack' @ map fst offered))))"
  by pat_completeness auto

termination dfs_loop
proof (relation "measures [\<lambda>(adj, visited, q). card (fst ` set adj - visited),
                            \<lambda>(adj, visited, q). length q]", goal_cases)
  case 1
  show ?case by simp
next
  case (2 adj visited stack current stack')
  then show ?case by simp
next
  case (3 adj visited stack current stack' visited' offered)
  then show ?case
    using visit_decreases[of current visited stack' stack adj "map fst offered"]
    by (simp add: neighbors_of_no_key)
qed

declare dfs_loop.simps [simp del]

definition dfs :: "adjacency \<Rightarrow> nat \<Rightarrow> event list" where
  "dfs adj start = dfs_loop adj {} [start]"

text \<open>\<open>newDist < distances.get(neighbor)\<close>: a comparison with \<open>undefined\<close> is false.\<close>

fun improves :: "int \<Rightarrow> distance option \<Rightarrow> bool" where
  "improves newDist None = False"
| "improves newDist (Some Infinity) = True"
| "improves newDist (Some (Finite d)) = (newDist < d)"

text \<open>The body of the \<open>for\<close> loop over the neighbours of the node just visited, as a
  step on \<open>distances\<close>, \<open>pq\<close> and the objects yielded so far.\<close>

fun relax_step :: "nat \<Rightarrow> int \<Rightarrow> nat set \<Rightarrow> nat \<times> int \<Rightarrow>
    (nat \<rightharpoonup> distance) \<times> (nat \<times> int) list \<times> event list \<Rightarrow>
    (nat \<rightharpoonup> distance) \<times> (nat \<times> int) list \<times> event list" where
  "relax_step current dst visited (neighbor, weight) (distances, pq, evs) =
     (if neighbor \<notin> visited then
        (let newDist = dst + weight
         in if improves newDist (distances neighbor) then
              (distances(neighbor \<mapsto> Finite newDist),
               pq @ [(neighbor, newDist)],
               evs @ [Enqueue neighbor (Some (current, neighbor)) (Some newDist)])
            else (distances, pq, evs))
      else (distances, pq, evs))"

function dijkstra_loop :: "adjacency \<Rightarrow> (nat \<rightharpoonup> distance) \<Rightarrow> nat set \<Rightarrow> (nat \<times> int) list \<Rightarrow>
    event list" where
  "dijkstra_loop adj distances visited pq =
     (case sort_key snd pq of
        [] \<Rightarrow> []
      | (current, dst) # rest \<Rightarrow>
          if current \<in> visited then dijkstra_loop adj distances visited rest
          else (let visited' = insert current visited
                in case fold (relax_step current dst visited') (neighbors_of adj current)
                          (distances, rest, []) of
                     (distances', pq', evs) \<Rightarrow>
                       Visit current None (Some dst) # evs
                       @ dijkstra_loop adj distances' visited' pq'))"
  by pat_completeness auto

termination dijkstra_loop
proof (relation "measures [\<lambda>(adj, distances, visited, q). card (fst ` set adj - visited),
                            \<lambda>(adj, distances, visited, q). length q]", goal_cases)
  case 1
  show ?case by simp
next
  case (2 adj distances visited pq top rest current dst)
  then have "length (sort_key snd pq) = Suc (length rest)" by simp
  then show ?case by simp
next
  case (3 adj distances visited pq top rest current dst visited' distances' r pq' evs)
  have len: "length (sort_key snd pq) = Suc (length rest)" using 3(1) by simp
  have v': "visited' = insert current visited" using 3 by simp
  have card_le: "card (fst ` set adj - visited') \<le> card (fst ` set adj - visited)"
    unfolding v' by (rule card_mono) auto
  show ?case
  proof (cases "current \<in> fst ` set adj")
    case True
    with 3(3) have "card (fst ` set adj - visited') < card (fst ` set adj - visited)"
      unfolding v' by (rule_tac unvisited_keys_decrease)
    then show ?thesis by simp
  next
    case False
    then have "neighbors_of adj current = []" by (rule neighbors_of_no_key)
    with 3 have "pq' = rest" by simp
    with len card_le show ?thesis by auto
  qed
qed


declare dijkstra_loop.simps [simp del]

definition dijkstra :: "node list \<Rightarrow> adjacency \<Rightarrow> nat \<Rightarrow> event list" where
  "dijkstra ns adj start =
     (let distances = (fold (\<lambda>n m. m(node_id n \<mapsto> Infinity)) ns Map.empty)(start \<mapsto> Finite 0);
          pq = [(start, 0)]
      in SetDistance start 0 # dijkstra_loop adj distances {} pq)"

section \<open>Animation controller\<close>

text \<open>\<open>xs.find(P)\<close> followed by an assignment to a field of the object found: the first
  element satisfying \<open>P\<close> is replaced, nothing changes when there is none.\<close>

fun update_first :: "('a \<Rightarrow> bool) \<Rightarrow> ('a \<Rightarrow> 'a) \<Rightarrow> 'a list \<Rightarrow> 'a list" where
  "update_first P f [] = []"
| "update_first P f (x # xs) = (if P x then f x # xs else x # update_first P f xs)"

text \<open>\<open>nodes.forEach(n => { if (n.state === 'current') n.state = 'visited'; })\<close>, for one
  node.\<close>

definition demote :: "node \<Rightarrow> node" where
  "demote n = (if node_state n = Current then n\<lparr>node_state := Visited\<rparr> else n)"

text \<open>\<open>if (step.edge) { const edge = edges.find(...); if (edge) edge.state = st; }\<close>\<close>

definition mark_edge :: "controls \<Rightarrow> (nat \<times> nat) option \<Rightarrow> edge_vstate \<Rightarrow> edge list \<Rightarrow> edge list" where
  "mark_edge c eo st es =
     (case eo of
        None \<Rightarrow> es
      | Some (a, b) \<Rightarrow> update_first (edge_matches c a b) (\<lambda>e. e\<lparr>edge_state := st\<rparr>) es)"

text \<open>\<open>if (step.distance !== undefined) node.distance = step.distance\<close>\<close>

definition with_distance :: "int option \<Rightarrow> node \<Rightarrow> node" where
  "with_distance dopt n = (case dopt of None \<Rightarrow> n | Some d \<Rightarrow> n\<lparr>node_distance := Finite d\<rparr>)"

text \<open>
  \<open>executeStep(step)\<close>. The node is looked up first, then every \<open>current\<close> node is
  demoted, then the event is applied to the node found (the same object, so its state
  is read after the demotion). No branch throws: a missing node or edge is skipped by
  \<open>if (node)\<close> and \<open>if (edge)\<close>.
\<close>

fun executeStep :: "controls \<Rightarrow> event \<Rightarrow> graph_state \<Rightarrow> graph_state" where
  "executeStep c (Visit i eo dopt) s =
     (let ns = map demote (nodes s)
      in s\<lparr>nodes := update_first (\<lambda>n. node_id n = i)
                        (\<lambda>n. with_distance dopt (n\<lparr>node_state := Current\<rparr>)) ns,
            orderList := (case find (\<lambda>n. node_id n = i) ns of
                            None \<Rightarrow> orderList s
                          | Some n \<Rightarrow> orderList s @ [node_label n]),
            edges := mark_edge c eo EdgeVisited (edges s)\<rparr>)"
| "executeStep c (Enqueue i eo dopt) s =
     s\<lparr>nodes := update_first (\<lambda>n. node_id n = i)
                     (\<lambda>n. if node_state n = Unvisited
                          then with_distance dopt (n\<lparr>node_state := InQueue\<rparr>) else n)
                     (map demote (nodes s)),
       edges := mark_edge c eo Active (edges s)\<rparr>"
| "executeStep c (SetDistance i d) s =
     s\<lparr>nodes := update_first (\<lambda>n. node_id n = i) (\<lambda>n. n\<lparr>node_distance := Finite d\<rparr>)
                     (map demote (nodes s))\<rparr>"

text \<open>The \<open>switch\<close> on the algorithm and the \<open>for\<close> loop pushing every yielded object
  on \<open>animationQueue\<close> (empty after \<open>resetTraversal\<close>).\<close>

definition materialize :: "controls \<Rightarrow> graph_state \<Rightarrow> nat \<Rightarrow> event list" where
  "materialize c s start =
     (case algorithm c of
        Bfs \<Rightarrow> bfs (adjacencyList s) start
      | Dfs \<Rightarrow> dfs (adjacencyList s) start
      | Dijkstra \<Rightarrow> dijkstra (nodes s) (adjacencyList s) start)"

text \<open>
  \<open>runAnimation\<close> between two timer waits: one test of the \<open>while\<close> condition and
  either the polling branch of a paused run, or \<open>executeStep\<close> and \<open>currentStep++\<close>, or
  the exit of the loop with the final \<open>if\<close>. The boolean tells whether the loop goes on
  to wait for a timer. What other handlers do during the waits is the caller's to
  interleave between passes.
\<close>

definition runAnimation_pass :: "controls \<Rightarrow> graph_state \<Rightarrow> bool \<times> graph_state" where
  "runAnimation_pass c s =
     (if currentStep s < length (animationQueue s) \<and> isRunning s then
        (if isPaused s then (True, s)
         else (True, (executeStep c (animationQueue s ! currentStep s) s)
                       \<lparr>currentStep := currentStep s + 1\<rparr>))
      else (False, if currentStep s \<ge> length (animationQueue s)
                   then s\<lparr>isRunning := False\<rparr> else s))"

text \<open>
  \<open>startTraversal\<close>, up to its first timer wait: the two guards (the alert is the first
  component of the result), the reset, the materialization, and the first pass of
  \<open>runAnimation\<close>, which runs before any other handler can.
\<close>

definition startTraversal :: "controls \<Rightarrow> graph_state \<Rightarrow> string option \<times> graph_state" where
  "startTraversal c s =
     (case startNode s of
        None \<Rightarrow> (Some ''Please set a start node first!'', s)
      | Some start \<Rightarrow>
          if isRunning s then (None, s)
          else (let s1 = (resetTraversal s)\<lparr>isRunning := True, isPaused := False\<rparr>;
                    s2 = s1\<lparr>animationQueue := animationQueue s1 @ materialize c s1 start\<rparr>
                in (None, snd (runAnimation_pass c s2))))"

definition togglePause :: "graph_state \<Rightarrow> graph_state" where
  "togglePause s = s\<lparr>isPaused := \<not> isPaused s\<rparr>"

definition stepTraversal :: "controls \<Rightarrow> graph_state \<Rightarrow> graph_state" where
  "stepTraversal c s =
     (let s1 = (case startNode s of
                  None \<Rightarrow> s
                | Some start \<Rightarrow>
                    if animationQueue s = [] then
                      (let r = (resetTraversal s)\<lparr>isRunning := True, isPaused := True\<rparr>
                       in r\<lparr>animationQueue := animationQueue r @ materialize c r start\<rparr>)
                    else s)
      in if currentStep s1 < length (animationQueue s1)
         then (executeStep c (animationQueue s1 ! currentStep s1) s1)
                \<lparr>currentStep := currentStep s1 + 1\<rparr>
         else s1)"

section \<open>The three-node scenario\<close>

fun and_then :: "js_error + 'a \<Rightarrow> ('a \<Rightarrow> js_error + 'b) \<Rightarrow> js_error + 'b" where
  "and_then (Inl e) f = Inl e"
| "and_then (Inr a) f = f a"

definition scenario_controls :: controls where
  "scenario_controls = \<lparr>algorithm = Dijkstra, graphType = Directed\<rparr>"

text \<open>Nodes A, B, C are added in this order (ids 0, 1, 2), then the directed edges
  A-B (1), A-C (4), B-C (1), and A is made the start node.\<close>

definition scenario_graph :: "js_error + graph_state" where
  "scenario_graph =
     and_then (createEdge scenario_controls 0 1 1
                 (addNode 300 100 (addNode 200 100 (addNode 100 100 initial_state))))
       (\<lambda>s1. and_then (createEdge scenario_controls 0 2 4 s1)
          (\<lambda>s2. and_then (createEdge scenario_controls 1 2 1 s2)
             (\<lambda>s3. Inr (setStartNode 0 s3))))"

definition scenario_state :: graph_state where
  "scenario_state =
     \<lparr>nodes =
        [\<lparr>node_id = 0, node_x = 100, node_y = 100, node_state = Unvisited,
          node_distance = Infinity, node_label = ''A''\<rparr>,
         \<lparr>node_id = 1, node_x = 200, node_y = 100, node_state = Unvisited,
          node_distance = Infinity, node_label = ''B''\<rparr>,
         \<lparr>node_id = 2, node_x = 300, node_y = 100, node_state = Unvisited,
          node_distance = Infinity, node_label = ''C''\<rparr>],
      edges =
        [\<lparr>edge_from = 0, edge_to = 1, edge_weight = 1, edge_state = Default\<rparr>,
         \<lparr>edge_from = 0, edge_to = 2, edge_weight = 4, edge_state = Default\<rparr>,
         \<lparr>edge_from = 1, edge_to = 2, edge_weight = 1, edge_state = Default\<rparr>],
      adjacencyList = [(0, [(1, 1), (2, 4)]), (1, [(2, 1)]), (2, [])],
      startNode = Some 0, selectedNode = None, isRunning = False, isPaused = False,
      animationQueue = [], currentStep = 0, nodeIdCounter = 3, orderList = []\<rparr>"

lemma scenario_graph_eq: "scenario_graph = Inr scenario_state"
  by code_simp

text \<open>\<open>n\<close> timer wake-ups of \<open>runAnimation\<close> after the call of \<open>startTraversal\<close>.\<close>

definition play :: "controls \<Rightarrow> nat \<Rightarrow> graph_state \<Rightarrow> graph_state" where
  "play c n s = ((\<lambda>t. snd (runAnimation_pass c t)) ^^ n) (snd (startTraversal c s))"


definition node_ids :: "graph_state \<Rightarrow> nat set" where
  "node_ids s = node_id ` set (nodes s)"

datatype store_op = AddNode real real | DeleteNode nat | ClearGraph

fun apply_op :: "store_op \<Rightarrow> graph_state \<Rightarrow> graph_state" where
  "apply_op (AddNode x y) s = addNode x y s"
| "apply_op (DeleteNode i) s = deleteNode i s"
| "apply_op ClearGraph s = clearGraph s"

text \<open>The ids given to the nodes created by the \<open>addNode\<close> calls of a sequence of
  operations, in order.\<close>

fun allocated_ids :: "store_op list \<Rightarrow> graph_state \<Rightarrow> nat list" where
  "allocated_ids [] s = []"
| "allocated_ids (AddNode x y # ops) s =
     node_id (last (nodes (addNode x y s))) # allocated_ids ops (addNode x y s)"
| "allocated_ids (DeleteNode i # ops) s = allocated_ids ops (deleteNode i s)"
| "allocated_ids (ClearGraph # ops) s = allocated_ids ops (clearGraph s)"

text \<open>No edge, adjacency entry or start designation names a node that is not in
  \<open>nodes\<close>, every edge has its entry in the adjacency list of its source, and every
  adjacency entry comes from an edge between the two nodes.\<close>

definition store_consistent :: "graph_state \<Rightarrow> bool" where
  "store_consistent s \<longleftrightarrow>
     (\<forall>e\<in>set (edges s). edge_from e \<in> node_ids s \<and> edge_to e \<in> node_ids s \<and>
        (edge_to e, edge_weight e) \<in> set (neighbors_of (adjacencyList s) (edge_from e))) \<and>
     (\<forall>(k, ns)\<in>set (adjacencyList s). k \<in> node_ids s \<and>
        (\<forall>(n, w)\<in>set ns. n \<in> node_ids s \<and>
           (\<exists>e\<in>set (edges s). edge_weight e = w \<and>
              (edge_from e = k \<and> edge_to e = n \<or> edge_from e = n \<and> edge_to e = k)))) \<and>
     (case startNode s of None \<Rightarrow> True | Some i \<Rightarrow> i \<in> node_ids s)"

section \<open>Lemmas on the list helpers\<close>

lemma length_update_first: "length (update_first P f xs) = length xs"
  by (induction xs) auto


lemma nth_update_first:
  "k < length xs \<Longrightarrow>
     update_first P f xs ! k =
       (if P (xs ! k) \<and> (\<forall>j<k. \<not> P (xs ! j)) then f (xs ! k) else xs ! k)"
proof (induction xs arbitrary: k)
  case Nil
  then show ?case by simp
next
  case (Cons x xs)
  show ?case
  proof (cases k)
    case 0
    then show ?thesis by simp
  next
    case (Suc m)
    with Cons.prems have m: "m < length xs" by simp
    show ?thesis
    proof (cases "P x")
      case True
      then have "P ((x # xs) ! 0)" and "0 < k" using Suc by simp_all
      then have "\<not> (\<forall>j<k. \<not> P ((x # xs) ! j))" by blast
      then have "(if P ((x # xs) ! k) \<and> (\<forall>j<k. \<not> P ((x # xs) ! j)) then f ((x # xs) ! k)
                  else (x # xs) ! k) = (x # xs) ! k"
        by (simp only: simp_thms if_False)
      with True Suc show ?thesis by simp
    next
      case False
      have "(\<forall>j<k. \<not> P ((x # xs) ! j)) \<longleftrightarrow> (\<forall>j<m. \<not> P (xs ! j))"
        using False Suc by (auto simp: All_less_Suc2)
      with False Suc Cons.IH[OF m] show ?thesis by auto
    qed
  qed
qed

lemma demote_id: "node_id (demote n) = node_id n"
  by (simp add: demote_def)

lemma demote_unvisited: "node_state (demote n) = Unvisited \<longleftrightarrow> node_state n = Unvisited"
  by (simp add: demote_def)

section \<open>Claims\<close>

subsection \<open>The three-node scenario (C4)\<close>

text \<open>
  The claim lists the first events of the run as \<open>setDistance(A,0)\<close>, the enqueues of B
  and C, then \<open>visit(A,0)\<close>. The generator yields \<open>visit(A,0)\<close> before the enqueues: the
  first four events are not the four the claim lists.
\<close>

theorem scenario_order_counterexample:
  "take 4 (animationQueue (snd (startTraversal scenario_controls scenario_state)))
     \<noteq> [SetDistance 0 0, Enqueue 1 (Some (0, 1)) (Some 1),
         Enqueue 2 (Some (0, 2)) (Some 4), Visit 0 None (Some 0)]"
  by code_simp

text \<open>
  C4, as amended: the graph built by three \<open>addNode\<close> and three \<open>createEdge\<close> calls is
  \<open>scenario_state\<close>, and the shortest-path run from A materializes exactly
  \<open>setDistance(A,0)\<close>, \<open>visit(A,0)\<close>, the enqueues of B with distance 1 and of C with
  distance 4, \<open>visit(B,1)\<close>, the enqueue of C with distance 2 and \<open>visit(C,2)\<close>: B is
  visited before C, and C is settled with distance 2, not 4.
\<close>

theorem scenario_events:
  "scenario_graph = Inr scenario_state \<and>
   animationQueue (snd (startTraversal scenario_controls scenario_state))
     = [SetDistance 0 0, Visit 0 None (Some 0),
        Enqueue 1 (Some (0, 1)) (Some 1), Enqueue 2 (Some (0, 2)) (Some 4),
        Visit 1 None (Some 1), Enqueue 2 (Some (1, 2)) (Some 2),
        Visit 2 None (Some 2)]"
  by code_simp

subsection \<open>Starting a run (C7)\<close>

text \<open>
  C7: \<open>startTraversal\<close> with no start node returns the alert message and the state it
  was given; called while \<open>isRunning\<close> it returns the state it was given (with no alert
  when a start node is set).
\<close>

theorem startTraversal_rejected:
  "(startNode s = None \<longrightarrow>
      startTraversal c s = (Some ''Please set a start node first!'', s)) \<and>
   (isRunning s \<longrightarrow> snd (startTraversal c s) = s) \<and>
   (startNode s \<noteq> None \<and> isRunning s \<longrightarrow> startTraversal c s = (None, s))"
  by (auto simp: startTraversal_def split: option.splits)

theorem startTraversal_rejected_witness:
  "startTraversal scenario_controls initial_state
     = (Some ''Please set a start node first!'', initial_state) \<and>
   startTraversal scenario_controls (play scenario_controls 1 scenario_state)
     = (None, play scenario_controls 1 scenario_state)"
proof -
  have a: "startNode initial_state = None" by (simp add: initial_state_def)
  have r: "isRunning (play scenario_controls 1 scenario_state)" by code_simp
  have st: "startNode (play scenario_controls 1 scenario_state) \<noteq> None" by code_simp
  show ?thesis
    using startTraversal_rejected[of initial_state scenario_controls] a
      startTraversal_rejected[of "play scenario_controls 1 scenario_state" scenario_controls]
      r st
    by simp
qed

subsection \<open>Node ids (C9)\<close>

lemma addNode_new_id: "node_id (last (nodes (addNode x y s))) = nodeIdCounter s"
  by (simp add: addNode_def Let_def)

lemma addNode_counter: "nodeIdCounter (addNode x y s) = Suc (nodeIdCounter s)"
  by (simp add: addNode_def Let_def)

lemma deleteNode_counter: "nodeIdCounter (deleteNode i s) = nodeIdCounter s"
  by (simp add: deleteNode_def)

lemma allocated_ids_bounds:
  "ClearGraph \<notin> set ops \<Longrightarrow>
     sorted_wrt (<) (allocated_ids ops s) \<and> (\<forall>i\<in>set (allocated_ids ops s). nodeIdCounter s \<le> i)"
proof (induction ops s rule: allocated_ids.induct)
  case (1 s)
  show ?case by simp
next
  case (2 x y ops s)
  then show ?case by (fastforce simp: addNode_new_id addNode_counter)
next
  case (3 i ops s)
  then show ?case by (simp add: deleteNode_counter)
next
  case (4 ops s)
  then show ?case by simp
qed

definition ids_fresh :: "graph_state \<Rightarrow> bool" where
  "ids_fresh s \<longleftrightarrow>
     distinct (map node_id (nodes s)) \<and> (\<forall>n\<in>set (nodes s). node_id n < nodeIdCounter s)"

lemma ids_fresh_initial: "ids_fresh initial_state"
  by (simp add: ids_fresh_def initial_state_def)

lemma ids_fresh_apply_op: "ids_fresh s \<Longrightarrow> ids_fresh (apply_op op s)"
proof (cases op)
  case (AddNode x y)
  assume "ids_fresh s"
  then show ?thesis unfolding AddNode
    by (auto simp: ids_fresh_def addNode_def Let_def less_Suc_eq)
next
  case (DeleteNode i)
  assume "ids_fresh s"
  then show ?thesis unfolding DeleteNode
    by (auto simp: ids_fresh_def deleteNode_def distinct_map_filter)
next
  case ClearGraph
  show ?thesis unfolding ClearGraph
    by (simp add: ids_fresh_def clearGraph_def resetTraversal_def)
qed

lemma ids_fresh_fold: "ids_fresh s \<Longrightarrow> ids_fresh (fold apply_op ops s)"
  by (induction ops arbitrary: s) (auto simp: ids_fresh_apply_op)

text \<open>
  The claim says that no two \<open>addNode\<close> calls of a session get the same id, for any
  sequence of \<open>addNode\<close>, \<open>deleteNode\<close> and \<open>clearGraph\<close>. \<open>clearGraph\<close> sets
  \<open>nodeIdCounter\<close> back to 0: the node added after it gets the id 0 again.
\<close>

theorem id_reused_after_clear:
  "allocated_ids [AddNode 10 10, ClearGraph, AddNode 20 20] initial_state = [0, 0]"
  by (simp add: addNode_new_id clearGraph_def resetTraversal_def addNode_counter initial_state_def)

text \<open>
  C9, as amended: in a sequence of \<open>addNode\<close> and \<open>deleteNode\<close> calls without a
  \<open>clearGraph\<close>, from any state, the ids given by \<open>addNode\<close> are strictly increasing,
  so no two are equal; and after any sequence of the three operations from the initial
  state the nodes present have pairwise different ids.
\<close>

theorem ids_not_reused_between_clears:
  "(ClearGraph \<notin> set ops \<longrightarrow>
      sorted_wrt (<) (allocated_ids ops s) \<and> distinct (allocated_ids ops s)) \<and>
   distinct (map node_id (nodes (fold apply_op ops initial_state)))"
proof -
  have "distinct (allocated_ids ops s)" if "ClearGraph \<notin> set ops"
    using allocated_ids_bounds[OF that, of s] by (simp add: strict_sorted_iff)
  moreover have "ids_fresh (fold apply_op ops initial_state)"
    by (rule ids_fresh_fold[OF ids_fresh_initial])
  ultimately show ?thesis
    using allocated_ids_bounds[of ops s] by (simp add: ids_fresh_def)
qed

theorem ids_not_reused_between_clears_witness:
  "allocated_ids [AddNode 10 10, DeleteNode 0, AddNode 20 20] initial_state = [0, 1] \<and>
   distinct (allocated_ids [AddNode 10 10, DeleteNode 0, AddNode 20 20] initial_state)"
proof -
  have "ClearGraph \<notin> set [AddNode 10 10, DeleteNode 0, AddNode 20 20]" by simp
  with ids_not_reused_between_clears[of "[AddNode 10 10, DeleteNode 0, AddNode 20 20]" initial_state]
  have "distinct (allocated_ids [AddNode 10 10, DeleteNode 0, AddNode 20 20] initial_state)"
    by blast
  moreover have "allocated_ids [AddNode 10 10, DeleteNode 0, AddNode 20 20] initial_state = [0, 1]"
    by (simp add: addNode_new_id addNode_counter deleteNode_counter initial_state_def)
  ultimately show ?thesis by simp
qed

subsection \<open>Applying an enqueue event (C5)\<close>

text \<open>The nodes of the scenario as the first five events of its run leave them: A visited,
  B being visited, C in the queue with distance 4. The sixth event is the enqueue of C
  with distance 2.\<close>

definition requeue_state :: graph_state where
  "requeue_state =
     scenario_state\<lparr>nodes :=
        [\<lparr>node_id = 0, node_x = 100, node_y = 100, node_state = Visited,
          node_distance = Finite 0, node_label = ''A''\<rparr>,
         \<lparr>node_id = 1, node_x = 200, node_y = 100, node_state = Current,
          node_distance = Finite 1, node_label = ''B''\<rparr>,
         \<lparr>node_id = 2, node_x = 300, node_y = 100, node_state = InQueue,
          node_distance = Finite 4, node_label = ''C''\<rparr>]\<rparr>"

lemma requeue_state_reached:
  "nodes (play scenario_controls 4 scenario_state) = nodes requeue_state"
  by code_simp

text \<open>
  The claim says that an enqueue event carrying a distance sets the node's distance
  whatever the node's visual state was. In \<open>executeStep\<close> the assignment of the distance
  stands inside the branch guarded by \<open>node.state === 'unvisited'\<close>: C, already in the
  queue with distance 4, keeps 4 when the enqueue with distance 2 is applied.
\<close>

theorem enqueue_keeps_distance_of_queued_node:
  "map node_state (nodes requeue_state) = [Visited, Current, InQueue] \<and>
   map node_distance (nodes requeue_state) = [Finite 0, Finite 1, Finite 4] \<and>
   map node_distance
     (nodes (executeStep scenario_controls (Enqueue 2 (Some (1, 2)) (Some 2)) requeue_state))
     = [Finite 0, Finite 1, Finite 4]"
  by code_simp

text \<open>
  C5, as amended: when an enqueue event is applied, the first node with the event's id,
  if it is unvisited, becomes \<open>inQueue\<close> and, if the event carries a distance, gets that
  distance; every other node, and that node when it is not unvisited, keeps its distance
  and its visual state, but for a \<open>current\<close> node, which becomes \<open>visited\<close>. The first
  edge matching the event's edge (in either direction when the graph is undirected)
  becomes \<open>active\<close>, the other edges are unchanged.
\<close>

theorem enqueue_event_applied:
  "length (nodes (executeStep c (Enqueue i eo dopt) s)) = length (nodes s) \<and>
   (\<forall>k<length (nodes s).
      nodes (executeStep c (Enqueue i eo dopt) s) ! k =
        (if node_id (nodes s ! k) = i \<and> (\<forall>j<k. node_id (nodes s ! j) \<noteq> i) \<and>
            node_state (nodes s ! k) = Unvisited
         then (nodes s ! k)\<lparr>node_state := InQueue,
                node_distance := (case dopt of None \<Rightarrow> node_distance (nodes s ! k)
                                  | Some d \<Rightarrow> Finite d)\<rparr>
         else demote (nodes s ! k))) \<and>
   length (edges (executeStep c (Enqueue i eo dopt) s)) = length (edges s) \<and>
   (\<forall>k<length (edges s).
      edges (executeStep c (Enqueue i eo dopt) s) ! k =
        (case eo of
           None \<Rightarrow> edges s ! k
         | Some (a, b) \<Rightarrow>
             if edge_matches c a b (edges s ! k) \<and>
                (\<forall>j<k. \<not> edge_matches c a b (edges s ! j))
             then (edges s ! k)\<lparr>edge_state := Active\<rparr> else edges s ! k))"
proof -
  have n: "nodes (executeStep c (Enqueue i eo dopt) s) ! k =
        (if node_id (nodes s ! k) = i \<and> (\<forall>j<k. node_id (nodes s ! j) \<noteq> i) \<and>
            node_state (nodes s ! k) = Unvisited
         then (nodes s ! k)\<lparr>node_state := InQueue,
                node_distance := (case dopt of None \<Rightarrow> node_distance (nodes s ! k)
                                  | Some d \<Rightarrow> Finite d)\<rparr>
         else demote (nodes s ! k))" if k: "k < length (nodes s)" for k
  proof -
    have "(\<forall>j<k. node_id (map demote (nodes s) ! j) \<noteq> i) \<longleftrightarrow>
          (\<forall>j<k. node_id (nodes s ! j) \<noteq> i)"
      using k by (auto simp: demote_id)
    then show ?thesis using k
      by (auto simp: nth_update_first demote_id demote_unvisited with_distance_def
          split: option.splits)
        (auto simp: demote_def)
  qed
  have e: "edges (executeStep c (Enqueue i eo dopt) s) ! k =
        (case eo of
           None \<Rightarrow> edges s ! k
         | Some (a, b) \<Rightarrow>
             if edge_matches c a b (edges s ! k) \<and>
                (\<forall>j<k. \<not> edge_matches c a b (edges s ! j))
             then (edges s ! k)\<lparr>edge_state := Active\<rparr> else edges s ! k)"
    if k: "k < length (edges s)" for k
    using k by (simp add: mark_edge_def nth_update_first split: option.splits prod.splits)
  have l1: "length (nodes (executeStep c (Enqueue i eo dopt) s)) = length (nodes s)"
    by (simp add: length_update_first)
  have l2: "length (edges (executeStep c (Enqueue i eo dopt) s)) = length (edges s)"
    by (simp add: mark_edge_def length_update_first split: option.splits prod.splits)
  from n e l1 l2 show ?thesis by blast
qed

theorem enqueue_event_applied_witness:
  "nodes (executeStep scenario_controls (Enqueue 2 (Some (0, 2)) (Some 4)) scenario_state) ! 2
     = (nodes scenario_state ! 2)\<lparr>node_state := InQueue, node_distance := Finite 4\<rparr> \<and>
   edges (executeStep scenario_controls (Enqueue 2 (Some (0, 2)) (Some 4)) scenario_state) ! 1
     = (edges scenario_state ! 1)\<lparr>edge_state := Active\<rparr>"
proof -
  have a: "(2::nat) < length (nodes scenario_state)" "(1::nat) < length (edges scenario_state)"
    by (simp_all add: scenario_state_def)
  have b: "node_id (nodes scenario_state ! 2) = 2 \<and>
           (\<forall>j<2. node_id (nodes scenario_state ! j) \<noteq> 2) \<and>
           node_state (nodes scenario_state ! 2) = Unvisited"
    by (simp add: scenario_state_def All_less_Suc2 numeral_2_eq_2)
  have c: "edge_matches scenario_controls 0 2 (edges scenario_state ! 1) \<and>
           (\<forall>j<1. \<not> edge_matches scenario_controls 0 2 (edges scenario_state ! j))"
    by (simp add: scenario_state_def edge_matches_def scenario_controls_def)
  from enqueue_event_applied[of scenario_controls 2 "Some (0, 2)" "Some 4" scenario_state] a b c
  show ?thesis by simp
qed

subsection \<open>Events on deleted nodes (C6)\<close>








subsection \<open>Deleting a node (C8)\<close>

lemma node_ids_deleteNode: "node_ids (deleteNode i s) = node_ids s - {i}"
  by (auto simp: node_ids_def deleteNode_def)

lemma edges_deleteNode:
  "set (edges (deleteNode i s)) = {e \<in> set (edges s). edge_from e \<noteq> i \<and> edge_to e \<noteq> i}"
  by (auto simp: deleteNode_def)

lemma adjacency_deleteNode:
  "set (adjacencyList (deleteNode i s)) =
     (\<lambda>(k, ns). (k, filter (\<lambda>(n, w). n \<noteq> i) ns)) ` {(k, ns) \<in> set (adjacencyList s). k \<noteq> i}"
  by (auto simp: deleteNode_def AList.delete_eq)

lemma map_of_deleteNode:
  "map_of (adjacencyList (deleteNode i s)) k =
     (if k = i then None
      else map_option (filter (\<lambda>(n, w). n \<noteq> i)) (map_of (adjacencyList s) k))"
  by (simp add: deleteNode_def map_of_map AList.delete_conv')

lemma neighbors_of_deleteNode:
  "k \<noteq> i \<Longrightarrow>
     neighbors_of (adjacencyList (deleteNode i s)) k =
       filter (\<lambda>(n, w). n \<noteq> i) (neighbors_of (adjacencyList s) k)"
  by (simp add: neighbors_of_def map_of_deleteNode split: option.splits)

lemma startNode_deleteNode:
  "startNode (deleteNode i s) = (if startNode s = Some i then None else startNode s)"
  by (simp add: deleteNode_def)

definition entry_from_edge :: "graph_state \<Rightarrow> nat \<Rightarrow> nat \<times> int \<Rightarrow> bool" where
  "entry_from_edge s k p \<longleftrightarrow>
     fst p \<in> node_ids s \<and>
     (\<exists>e\<in>set (edges s). edge_weight e = snd p \<and>
        (edge_from e = k \<and> edge_to e = fst p \<or> edge_from e = fst p \<and> edge_to e = k))"

lemma store_consistent_iff:
  "store_consistent s \<longleftrightarrow>
     (\<forall>e\<in>set (edges s). edge_from e \<in> node_ids s \<and> edge_to e \<in> node_ids s \<and>
        (edge_to e, edge_weight e) \<in> set (neighbors_of (adjacencyList s) (edge_from e))) \<and>
     (\<forall>q\<in>set (adjacencyList s). fst q \<in> node_ids s \<and>
        (\<forall>p\<in>set (snd q). entry_from_edge s (fst q) p)) \<and>
     (case startNode s of None \<Rightarrow> True | Some i \<Rightarrow> i \<in> node_ids s)"
  unfolding store_consistent_def entry_from_edge_def
  by (simp only: case_prod_unfold)

lemma entry_from_edge_deleteNode:
  assumes "entry_from_edge s k p" and "k \<noteq> i" and "fst p \<noteq> i"
  shows "entry_from_edge (deleteNode i s) k p"
proof -
  from assms(1) obtain e where e: "e \<in> set (edges s)" "edge_weight e = snd p"
      "edge_from e = k \<and> edge_to e = fst p \<or> edge_from e = fst p \<and> edge_to e = k"
    and p: "fst p \<in> node_ids s"
    unfolding entry_from_edge_def by blast
  from e assms(2,3) have "e \<in> set (edges (deleteNode i s))"
    unfolding edges_deleteNode by auto
  with e p assms(3) show ?thesis
    unfolding entry_from_edge_def node_ids_deleteNode by blast
qed

lemma store_consistent_deleteNode:
  assumes "store_consistent s"
  shows "store_consistent (deleteNode i s)"
proof -
  note c = assms[unfolded store_consistent_iff]
  have e: "\<forall>e\<in>set (edges (deleteNode i s)).
        edge_from e \<in> node_ids (deleteNode i s) \<and> edge_to e \<in> node_ids (deleteNode i s) \<and>
        (edge_to e, edge_weight e)
          \<in> set (neighbors_of (adjacencyList (deleteNode i s)) (edge_from e))"
  proof
    fix e assume "e \<in> set (edges (deleteNode i s))"
    then have m: "e \<in> set (edges s)" and f: "edge_from e \<noteq> i" and t: "edge_to e \<noteq> i"
      by (simp_all add: edges_deleteNode)
    from c m have "edge_from e \<in> node_ids s" "edge_to e \<in> node_ids s"
      "(edge_to e, edge_weight e) \<in> set (neighbors_of (adjacencyList s) (edge_from e))"
      by blast+
    with f t show "edge_from e \<in> node_ids (deleteNode i s) \<and>
        edge_to e \<in> node_ids (deleteNode i s) \<and>
        (edge_to e, edge_weight e)
          \<in> set (neighbors_of (adjacencyList (deleteNode i s)) (edge_from e))"
      by (simp add: node_ids_deleteNode neighbors_of_deleteNode)
  qed
  have a: "\<forall>q\<in>set (adjacencyList (deleteNode i s)). fst q \<in> node_ids (deleteNode i s) \<and>
        (\<forall>p\<in>set (snd q). entry_from_edge (deleteNode i s) (fst q) p)"
  proof
    fix q assume "q \<in> set (adjacencyList (deleteNode i s))"
    then obtain k ms where ms: "(k, ms) \<in> set (adjacencyList s)" and k: "k \<noteq> i"
      and q: "q = (k, filter (\<lambda>(n, w). n \<noteq> i) ms)"
      unfolding adjacency_deleteNode by auto
    from c ms have kin: "k \<in> node_ids s" and all: "\<forall>p\<in>set ms. entry_from_edge s k p"
      by force+
    have "entry_from_edge (deleteNode i s) k p"
      if "p \<in> set (filter (\<lambda>(n, w). n \<noteq> i) ms)" for p
    proof -
      from that have "p \<in> set ms" and "fst p \<noteq> i" by (auto simp: split_beta)
      with all k show ?thesis by (simp add: entry_from_edge_deleteNode)
    qed
    with kin k show "fst q \<in> node_ids (deleteNode i s) \<and>
        (\<forall>p\<in>set (snd q). entry_from_edge (deleteNode i s) (fst q) p)"
      by (simp add: q node_ids_deleteNode)
  qed
  have st: "case startNode (deleteNode i s) of None \<Rightarrow> True
            | Some j \<Rightarrow> j \<in> node_ids (deleteNode i s)"
    using c by (simp add: startNode_deleteNode node_ids_deleteNode split: option.splits)
  from e a st show ?thesis
    unfolding store_consistent_iff by (intro conjI)
qed

text \<open>
  C8: \<open>deleteNode(id)\<close> removes the nodes with that id and no other node, removes the
  edges whose source or target is the id and no other edge, leaves no adjacency entry
  under the id and no neighbour entry naming it in any other node's list, and leaves a
  start designation other than the id as it was, clearing one that was the id. When no
  edge, adjacency entry or start designation named a missing node before and edges and
  adjacency entries agreed, the same holds afterwards.
\<close>

theorem deleteNode_leaves_no_reference:
  "node_ids (deleteNode i s) = node_ids s - {i} \<and>
   set (edges (deleteNode i s)) = {e \<in> set (edges s). edge_from e \<noteq> i \<and> edge_to e \<noteq> i} \<and>
   map_of (adjacencyList (deleteNode i s)) i = None \<and>
   (\<forall>(k, ns)\<in>set (adjacencyList (deleteNode i s)). k \<noteq> i \<and> (\<forall>(n, w)\<in>set ns. n \<noteq> i)) \<and>
   (\<forall>k. k \<noteq> i \<longrightarrow>
      neighbors_of (adjacencyList (deleteNode i s)) k =
        filter (\<lambda>(n, w). n \<noteq> i) (neighbors_of (adjacencyList s) k)) \<and>
   startNode (deleteNode i s) = (if startNode s = Some i then None else startNode s) \<and>
   (store_consistent s \<longrightarrow> store_consistent (deleteNode i s))"
proof -
  have "\<forall>(k, ns)\<in>set (adjacencyList (deleteNode i s)). k \<noteq> i \<and> (\<forall>(n, w)\<in>set ns. n \<noteq> i)"
    by (auto simp: adjacency_deleteNode)
  then show ?thesis
    using store_consistent_deleteNode[of s i]
    by (simp add: node_ids_deleteNode edges_deleteNode map_of_deleteNode
        neighbors_of_deleteNode startNode_deleteNode)
qed

theorem deleteNode_leaves_no_reference_witness:
  "store_consistent scenario_state \<and> store_consistent (deleteNode 1 scenario_state) \<and>
   node_ids (deleteNode 1 scenario_state) = {0, 2} \<and>
   adjacencyList (deleteNode 1 scenario_state) = [(0, [(2, 4)]), (2, [])] \<and>
   map (\<lambda>e. (edge_from e, edge_to e)) (edges (deleteNode 1 scenario_state)) = [(0, 2)]"
proof -
  have c: "store_consistent scenario_state" by code_simp
  have "node_ids (deleteNode 1 scenario_state) = {0, 2}"
    "adjacencyList (deleteNode 1 scenario_state) = [(0, [(2, 4)]), (2, [])]"
    "map (\<lambda>e. (edge_from e, edge_to e)) (edges (deleteNode 1 scenario_state)) = [(0, 2)]"
    by code_simp+
  with c deleteNode_leaves_no_reference[of 1 scenario_state] show ?thesis by blast
qed

section \<open>Properties of the generators\<close>

fun is_visit :: "event \<Rightarrow> bool" where
  "is_visit (Visit n e d) = True"
| "is_visit (Enqueue n e d) = False"
| "is_visit (SetDistance n d) = False"

text \<open>The node ids of the \<open>visit\<close> events of a sequence, in order.\<close>

definition visit_order :: "event list \<Rightarrow> nat list" where
  "visit_order evs = map event_node (filter is_visit evs)"

text \<open>Reachability over the adjacency lists, as \<open>adjacencyList.get(u) || []\<close> reads them.\<close>

inductive reachable :: "adjacency \<Rightarrow> nat \<Rightarrow> nat \<Rightarrow> bool" for adj start where
  reachable_start: "reachable adj start start"
| reachable_step:
    "reachable adj start u \<Longrightarrow> (v, w) \<in> set (neighbors_of adj u) \<Longrightarrow> reachable adj start v"

lemma visit_order_Nil: "visit_order [] = []"
  by (simp add: visit_order_def)

lemma visit_order_Visit: "visit_order (Visit n e d # evs) = n # visit_order evs"
  by (simp add: visit_order_def)

lemma visit_order_Enqueue: "visit_order (Enqueue n e d # evs) = visit_order evs"
  by (simp add: visit_order_def)

lemma visit_order_SetDistance: "visit_order (SetDistance n d # evs) = visit_order evs"
  by (simp add: visit_order_def)

lemma visit_order_append: "visit_order (xs @ ys) = visit_order xs @ visit_order ys"
  by (simp add: visit_order_def)

lemma visit_order_enqueues:
  "visit_order (map (\<lambda>(n, w). Enqueue n (Some (c, n)) None) xs) = []"
  by (induction xs) (auto simp: visit_order_def)

lemmas visit_order_simps = visit_order_Nil visit_order_Visit visit_order_Enqueue
  visit_order_SetDistance visit_order_append visit_order_enqueues

text \<open>A set that holds the start node and is closed under the adjacency lists holds every
  reachable node.\<close>

lemma reachable_in_closed:
  assumes "reachable adj start v" and "start \<in> R"
    and "\<And>u n w. u \<in> R \<Longrightarrow> (n, w) \<in> set (neighbors_of adj u) \<Longrightarrow> n \<in> R"
  shows "v \<in> R"
  using assms(1)
proof induction
  case reachable_start
  show ?case by (rule assms(2))
next
  case (reachable_step u v w)
  then show ?case using assms(3) by blast
qed

subsection \<open>Breadth-first search\<close>

lemma bfs_loop_Nil: "bfs_loop adj V [] = []"
  by (simp add: bfs_loop.simps)

lemma bfs_loop_skip: "c \<in> V \<Longrightarrow> bfs_loop adj V (c # q) = bfs_loop adj V q"
  by (simp add: bfs_loop.simps)

definition bfs_offered :: "adjacency \<Rightarrow> nat set \<Rightarrow> nat \<Rightarrow> nat list" where
  "bfs_offered adj V c =
     map fst (filter (\<lambda>(n, w). n \<notin> insert c V) (neighbors_of adj c))"

lemma set_bfs_offered:
  "set (bfs_offered adj V c) = {n. \<exists>w. (n, w) \<in> set (neighbors_of adj c)} - insert c V"
  by (force simp: bfs_offered_def)

lemma bfs_loop_visit:
  "c \<notin> V \<Longrightarrow>
     visit_order (bfs_loop adj V (c # q)) =
       c # visit_order (bfs_loop adj (insert c V) (q @ bfs_offered adj V c))"
  by (simp add: bfs_loop.simps Let_def visit_order_simps bfs_offered_def)

lemma bfs_loop_induct [case_names Nil skip visit]:
  assumes "\<And>adj V. P adj V []"
    and "\<And>adj V c q. c \<in> V \<Longrightarrow> P adj V q \<Longrightarrow> P adj V (c # q)"
    and "\<And>adj V c q. c \<notin> V \<Longrightarrow> P adj (insert c V) (q @ bfs_offered adj V c) \<Longrightarrow>
           P adj V (c # q)"
  shows "P adj V q"
proof (induction adj V q rule: bfs_loop.induct)
  case (1 adj visited)
  show ?case by (rule assms(1))
next
  case (2 adj visited current queue)
  show ?case
  proof (cases "current \<in> visited")
    case True
    with 2(1) show ?thesis by (intro assms(2))
  next
    case False
    from 2(2)[OF False refl refl] have "P adj (insert current visited)
        (queue @ bfs_offered adj visited current)"
      by (simp add: bfs_offered_def)
    with False show ?thesis by (intro assms(3))
  qed
qed

lemma bfs_loop_distinct:
  "distinct (visit_order (bfs_loop adj V q)) \<and> set (visit_order (bfs_loop adj V q)) \<inter> V = {}"
proof (induction adj V q rule: bfs_loop_induct)
  case (Nil adj V)
  show ?case by (simp add: bfs_loop_Nil visit_order_Nil)
next
  case (skip adj V c q)
  then show ?case by (simp add: bfs_loop_skip)
next
  case (visit adj V c q)
  then show ?case by (auto simp: bfs_loop_visit)
qed

lemma bfs_loop_sound:
  "\<forall>x\<in>set q. reachable adj start x \<Longrightarrow>
     \<forall>u\<in>set (visit_order (bfs_loop adj V q)). reachable adj start u"
proof (induction adj V q rule: bfs_loop_induct)
  case (Nil adj V)
  show ?case by (simp add: bfs_loop_Nil visit_order_Nil)
next
  case (skip adj V c q)
  then show ?case by (simp add: bfs_loop_skip)
next
  case (visit adj V c q)
  from visit.prems have c: "reachable adj start c" by simp
  have "reachable adj start x" if "x \<in> set (bfs_offered adj V c)" for x
  proof -
    from that obtain w where "(x, w) \<in> set (neighbors_of adj c)"
      unfolding set_bfs_offered by blast
    with c show ?thesis by (rule reachable_step)
  qed
  with visit.prems have "\<forall>x\<in>set (q @ bfs_offered adj V c). reachable adj start x"
    by auto
  with visit.IH visit.hyps c show ?case by (simp add: bfs_loop_visit)
qed

lemma bfs_loop_complete:
  "set q \<subseteq> V \<union> set (visit_order (bfs_loop adj V q)) \<and>
   (\<forall>u n w. u \<in> set (visit_order (bfs_loop adj V q)) \<longrightarrow> (n, w) \<in> set (neighbors_of adj u) \<longrightarrow>
      n \<in> V \<union> set (visit_order (bfs_loop adj V q)))"
proof (induction adj V q rule: bfs_loop_induct)
  case (Nil adj V)
  show ?case by (simp add: bfs_loop_Nil visit_order_Nil)
next
  case (skip adj V c q)
  then show ?case by (simp add: bfs_loop_skip)
next
  case (visit adj V c q)
  let ?R' = "set (visit_order (bfs_loop adj (insert c V) (q @ bfs_offered adj V c)))"
  from visit.IH have q: "set q \<subseteq> insert c V \<union> ?R'"
    and off: "set (bfs_offered adj V c) \<subseteq> insert c V \<union> ?R'"
    and cl: "\<And>u n w. u \<in> ?R' \<Longrightarrow> (n, w) \<in> set (neighbors_of adj u) \<Longrightarrow> n \<in> insert c V \<union> ?R'"
    by (simp, simp, blast)
  have c: "n \<in> insert c V \<union> ?R'" if "(n, w) \<in> set (neighbors_of adj c)" for n w
  proof (cases "n \<in> insert c V")
    case True
    then show ?thesis by blast
  next
    case False
    with that have "n \<in> set (bfs_offered adj V c)" unfolding set_bfs_offered by blast
    with off show ?thesis by blast
  qed
  have eq: "set (visit_order (bfs_loop adj V (c # q))) = insert c ?R'"
    by (simp add: bfs_loop_visit[OF visit.hyps])
  have 1: "set (c # q) \<subseteq> V \<union> insert c ?R'" using q by auto
  have 2: "n \<in> V \<union> insert c ?R'"
    if "u \<in> insert c ?R'" "(n, w) \<in> set (neighbors_of adj u)" for u n w
  proof (cases "u = c")
    case True
    with c[of n w] that show ?thesis by blast
  next
    case False
    with that cl[of u n w] show ?thesis by blast
  qed
  from 1 2 show ?case unfolding eq by blast
qed

lemma bfs_visits_reachable:
  "set (visit_order (bfs adj start)) = {v. reachable adj start v}"
proof (intro equalityI subsetI)
  fix v assume "v \<in> set (visit_order (bfs adj start))"
  with bfs_loop_sound[of "[start]" adj start "{}"] show "v \<in> {v. reachable adj start v}"
    by (simp add: bfs_def reachable_start)
next
  fix v assume "v \<in> {v. reachable adj start v}"
  then have r: "reachable adj start v" by simp
  from bfs_loop_complete[of "[start]" "{}" adj]
  have s: "start \<in> set (visit_order (bfs adj start))"
    and cl: "\<And>u n w. u \<in> set (visit_order (bfs adj start)) \<Longrightarrow>
      (n, w) \<in> set (neighbors_of adj u) \<Longrightarrow> n \<in> set (visit_order (bfs adj start))"
    unfolding bfs_def by (simp, blast)
  show "v \<in> set (visit_order (bfs adj start))"
    by (rule reachable_in_closed[OF r s]) (rule cl)
qed

subsection \<open>Depth-first search\<close>

lemma dfs_loop_Nil: "dfs_loop adj V [] = []"
  by (simp add: dfs_loop.simps)

lemma dfs_loop_skip: "c \<in> V \<Longrightarrow> dfs_loop adj V (st @ [c]) = dfs_loop adj V st"
  by (simp add: dfs_loop.simps[of adj V "st @ [c]"])

definition dfs_offered :: "adjacency \<Rightarrow> nat set \<Rightarrow> nat \<Rightarrow> nat list" where
  "dfs_offered adj V c =
     map fst (filter (\<lambda>(n, w). n \<notin> insert c V) (rev (neighbors_of adj c)))"


lemma dfs_loop_visit:
  "c \<notin> V \<Longrightarrow>
     visit_order (dfs_loop adj V (st @ [c])) =
       c # visit_order (dfs_loop adj (insert c V) (st @ dfs_offered adj V c))"
  by (simp add: dfs_loop.simps[of adj V "st @ [c]"] Let_def visit_order_simps dfs_offered_def)

lemma dfs_loop_induct [case_names Nil skip visit]:
  assumes "\<And>adj V. P adj V []"
    and "\<And>adj V c st. c \<in> V \<Longrightarrow> P adj V st \<Longrightarrow> P adj V (st @ [c])"
    and "\<And>adj V c st. c \<notin> V \<Longrightarrow> P adj (insert c V) (st @ dfs_offered adj V c) \<Longrightarrow>
           P adj V (st @ [c])"
  shows "P adj V st"
proof (induction adj V st rule: dfs_loop.induct)
  case (1 adj visited stack)
  show ?case
  proof (cases "stack = []")
    case True
    then show ?thesis by (simp add: assms(1))
  next
    case False
    then have split: "stack = butlast stack @ [last stack]" by simp
    show ?thesis
    proof (cases "last stack \<in> visited")
      case True
      from 1(1)[OF False refl refl True] True have "P adj visited (butlast stack @ [last stack])"
        by (intro assms(2))
      with split show ?thesis by simp
    next
      case notin: False
      from 1(2)[OF False refl refl notin refl refl]
      have "P adj (insert (last stack) visited)
              (butlast stack @ dfs_offered adj visited (last stack))"
        by (simp add: dfs_offered_def)
      with notin have "P adj visited (butlast stack @ [last stack])"
        by (intro assms(3))
      with split show ?thesis by simp
    qed
  qed
qed

lemma dfs_loop_distinct:
  "distinct (visit_order (dfs_loop adj V st)) \<and> set (visit_order (dfs_loop adj V st)) \<inter> V = {}"
proof (induction adj V st rule: dfs_loop_induct)
  case (Nil adj V)
  show ?case by (simp add: dfs_loop_Nil visit_order_Nil)
next
  case (skip adj V c st)
  then show ?case by (simp add: dfs_loop_skip)
next
  case (visit adj V c st)
  then show ?case by (auto simp: dfs_loop_visit)
qed




subsection \<open>Shortest paths: the loop and the relaxation of the neighbours\<close>


lemma dijkstra_loop_Nil: "dijkstra_loop adj D V [] = []"
  by (simp add: dijkstra_loop.simps)

lemma dijkstra_loop_skip:
  "sort_key snd pq = (c, d) # rest \<Longrightarrow> c \<in> V \<Longrightarrow>
     dijkstra_loop adj D V pq = dijkstra_loop adj D V rest"
  by (simp add: dijkstra_loop.simps[of adj D V pq])

lemma dijkstra_loop_visit:
  "sort_key snd pq = (c, d) # rest \<Longrightarrow> c \<notin> V \<Longrightarrow>
   fold (relax_step c d (insert c V)) (neighbors_of adj c) (D, rest, []) = (D', pq', evs) \<Longrightarrow>
     dijkstra_loop adj D V pq =
       Visit c None (Some d) # evs @ dijkstra_loop adj D' (insert c V) pq'"
  by (simp add: dijkstra_loop.simps[of adj D V pq])

lemma dijkstra_loop_induct [case_names Nil skip visit]:
  assumes "\<And>adj D V. P adj D V []"
    and "\<And>adj D V pq c d rest.
           sort_key snd pq = (c, d) # rest \<Longrightarrow> c \<in> V \<Longrightarrow> P adj D V rest \<Longrightarrow> P adj D V pq"
    and "\<And>adj D V pq c d rest D' pq' evs.
           sort_key snd pq = (c, d) # rest \<Longrightarrow> c \<notin> V \<Longrightarrow>
           fold (relax_step c d (insert c V)) (neighbors_of adj c) (D, rest, []) = (D', pq', evs) \<Longrightarrow>
           P adj D' (insert c V) pq' \<Longrightarrow> P adj D V pq"
  shows "P adj D V pq"
proof (induction adj D V pq rule: dijkstra_loop.induct)
  case (1 adj D V pq)
  show ?case
  proof (cases "sort_key snd pq")
    case Nil
    then have "pq = []" using length_sort[of snd pq] by (metis length_0_conv)
    then show ?thesis by (simp add: assms(1))
  next
    case (Cons top rest)
    obtain c d where top: "top = (c, d)" by (cases top)
    from Cons top have eq: "sort_key snd pq = (c, d) # rest" by simp
    show ?thesis
    proof (cases "c \<in> V")
      case True
      from 1(1)[OF Cons top[symmetric] True] have "P adj D V rest" .
      with eq True show ?thesis by (rule assms(2))
    next
      case False
      obtain D' pq' evs where
        r: "fold (relax_step c d (insert c V)) (neighbors_of adj c) (D, rest, []) = (D', pq', evs)"
        by (cases "fold (relax_step c d (insert c V)) (neighbors_of adj c) (D, rest, [])")
      from 1(2)[OF Cons top[symmetric] False refl r[symmetric] refl]
      have "P adj D' (insert c V) pq'" .
      with eq False r show ?thesis by (rule assms(3))
    qed
  qed
qed

declare relax_step.simps [simp del]

lemma relax_step_unfold:
  "relax_step c d V (n, w) (D, pq, evs) =
     (if n \<notin> V \<and> improves (d + w) (D n)
      then (D(n \<mapsto> Finite (d + w)), pq @ [(n, d + w)],
            evs @ [Enqueue n (Some (c, n)) (Some (d + w))])
      else (D, pq, evs))"
  by (simp add: relax_step.simps Let_def)

lemma improves_Some: "improves x v \<Longrightarrow> \<exists>y. v = Some y"
  by (cases v) auto


text \<open>Every tentative distance of a node not yet visited has its entry in \<open>pq\<close>.\<close>

definition queued :: "(nat \<rightharpoonup> distance) \<Rightarrow> nat set \<Rightarrow> (nat \<times> int) list \<Rightarrow> bool" where
  "queued D V pq \<longleftrightarrow> (\<forall>n x. n \<notin> V \<longrightarrow> D n = Some (Finite x) \<longrightarrow> (n, x) \<in> set pq)"

text \<open>What one pass over the neighbours does to \<open>distances\<close>, \<open>pq\<close> and the events.\<close>

lemma relax_fold_all:
  assumes "fold (relax_step c d V) ns (D, pq, evs) = (D', pq', evs')"
  shows "set pq \<subseteq> set pq' \<and>
    (\<forall>p\<in>set pq'. p \<in> set pq \<or> (\<exists>w. (fst p, w) \<in> set ns \<and> snd p = d + w \<and> fst p \<notin> V)) \<and>
    (\<forall>n. D' n \<noteq> None \<longleftrightarrow> D n \<noteq> None) \<and>
    (queued D V pq \<longrightarrow> queued D' V pq') \<and>
    visit_order evs' = visit_order evs \<and>
    (\<forall>e\<in>set evs'. e \<in> set evs \<or> \<not> is_visit e)"
  using assms
proof (induction ns arbitrary: D pq evs)
  case Nil
  then show ?case by simp
next
  case (Cons a ns)
  obtain n w where a: "a = (n, w)" by (cases a)
  obtain D1 pq1 evs1 where s1: "relax_step c d V (n, w) (D, pq, evs) = (D1, pq1, evs1)"
    by (cases "relax_step c d V (n, w) (D, pq, evs)")
  from Cons.prems have f: "fold (relax_step c d V) ns (D1, pq1, evs1) = (D', pq', evs')"
    by (simp add: a s1)
  have sub1: "set pq \<subseteq> set pq1"
    using s1 by (auto simp: relax_step_unfold split: if_splits)
  have new1: "\<forall>p\<in>set pq1. p \<in> set pq \<or> (fst p = n \<and> snd p = d + w \<and> n \<notin> V)"
    using s1 by (auto simp: relax_step_unfold split: if_splits)
  have dom1: "\<forall>k. D1 k \<noteq> None \<longleftrightarrow> D k \<noteq> None"
    using s1 by (auto simp: relax_step_unfold split: if_splits dest: improves_Some)
  have q1: "queued D V pq \<longrightarrow> queued D1 V pq1"
    using s1 by (auto simp: relax_step_unfold queued_def split: if_splits)
  have vo1: "visit_order evs1 = visit_order evs"
    using s1 by (auto simp: relax_step_unfold visit_order_simps split: if_splits)
  have ev1: "\<forall>e\<in>set evs1. e \<in> set evs \<or> \<not> is_visit e"
    using s1 by (auto simp: relax_step_unfold split: if_splits)
  note IH = Cons.IH[OF f]
  from IH sub1 have 1: "set pq \<subseteq> set pq'" by blast
  have 2: "\<forall>p\<in>set pq'. p \<in> set pq \<or>
             (\<exists>w. (fst p, w) \<in> set (a # ns) \<and> snd p = d + w \<and> fst p \<notin> V)"
  proof
    fix p assume "p \<in> set pq'"
    with IH have "p \<in> set pq1 \<or> (\<exists>w. (fst p, w) \<in> set ns \<and> snd p = d + w \<and> fst p \<notin> V)"
      by blast
    then show "p \<in> set pq \<or> (\<exists>w. (fst p, w) \<in> set (a # ns) \<and> snd p = d + w \<and> fst p \<notin> V)"
    proof
      assume "p \<in> set pq1"
      with new1 have "p \<in> set pq \<or> (fst p = n \<and> snd p = d + w \<and> n \<notin> V)" by blast
      then show ?thesis by (auto simp: a)
    next
      assume "\<exists>w. (fst p, w) \<in> set ns \<and> snd p = d + w \<and> fst p \<notin> V"
      then show ?thesis by auto
    qed
  qed
  from IH dom1 have 3: "\<forall>n. D' n \<noteq> None \<longleftrightarrow> D n \<noteq> None" by simp
  from IH q1 have 4: "queued D V pq \<longrightarrow> queued D' V pq'" by blast
  from IH vo1 have 5: "visit_order evs' = visit_order evs" by simp
  from IH ev1 have 6: "\<forall>e\<in>set evs'. e \<in> set evs \<or> \<not> is_visit e" by blast
  from 1 2 3 4 5 6 show ?case by (intro conjI)
qed

lemma relax_fold:
  assumes "fold (relax_step c d V) ns (D, pq, evs) = (D', pq', evs')"
  shows "set pq \<subseteq> set pq'"
    and "\<forall>p\<in>set pq'. p \<in> set pq \<or> (\<exists>w. (fst p, w) \<in> set ns \<and> snd p = d + w \<and> fst p \<notin> V)"
    and "\<forall>n. D' n \<noteq> None \<longleftrightarrow> D n \<noteq> None"
    and "queued D V pq \<longrightarrow> queued D' V pq'"
    and "visit_order evs' = visit_order evs"
    and "\<forall>e\<in>set evs'. e \<in> set evs \<or> \<not> is_visit e"
  using relax_fold_all[OF assms] by blast+


subsection \<open>Shortest paths: which nodes are visited\<close>

lemma dijkstra_visit_order:
  assumes "sort_key snd pq = (c, d) # rest" and "c \<notin> V"
    and "fold (relax_step c d (insert c V)) (neighbors_of adj c) (D, rest, []) = (D', pq', evs)"
  shows "visit_order (dijkstra_loop adj D V pq) =
           c # visit_order (dijkstra_loop adj D' (insert c V) pq')"
  using relax_fold(5)[OF assms(3)]
  by (simp add: dijkstra_loop_visit[OF assms] visit_order_simps)

lemma dijkstra_loop_distinct:
  "distinct (visit_order (dijkstra_loop adj D V pq)) \<and>
   set (visit_order (dijkstra_loop adj D V pq)) \<inter> V = {}"
proof (induction adj D V pq rule: dijkstra_loop_induct)
  case (Nil adj D V)
  show ?case by (simp add: dijkstra_loop_Nil visit_order_Nil)
next
  case (skip adj D V pq c d rest)
  then show ?case by (simp add: dijkstra_loop_skip)
next
  case (visit adj D V pq c d rest D' pq' evs)
  from visit.IH visit.hyps(2) show ?case
    unfolding dijkstra_visit_order[OF visit.hyps] by auto
qed






text \<open>Every neighbour named in an adjacency list is the id of a node of the list
  \<open>nodes\<close>; the operations of the graph store keep it so.\<close>

definition neighbours_known :: "node list \<Rightarrow> adjacency \<Rightarrow> bool" where
  "neighbours_known ns adj \<longleftrightarrow>
     (\<forall>q\<in>set adj. \<forall>p\<in>set (snd q). fst p \<in> node_id ` set ns)"



lemma store_consistent_neighbours_known:
  "store_consistent s \<Longrightarrow> neighbours_known (nodes s) (adjacencyList s)"
  unfolding store_consistent_iff neighbours_known_def entry_from_edge_def node_ids_def
  by blast

lemma visit_order_dijkstra:
  "visit_order (dijkstra ns adj start) =
     visit_order (dijkstra_loop adj
       ((fold (\<lambda>n m. m(node_id n \<mapsto> Infinity)) ns Map.empty)(start \<mapsto> Finite 0)) {}
       [(start, 0)])"
  by (simp add: dijkstra_def Let_def visit_order_simps)




subsection \<open>The visited nodes are the reachable nodes (C2)\<close>




subsection \<open>One visit event for each node (C10)\<close>

fun is_enqueue :: "event \<Rightarrow> bool" where
  "is_enqueue (Visit n e d) = False"
| "is_enqueue (Enqueue n e d) = True"
| "is_enqueue (SetDistance n d) = False"

definition enqueue_order :: "event list \<Rightarrow> nat list" where
  "enqueue_order evs = map event_node (filter is_enqueue evs)"

text \<open>
  C10: in the sequence of each of the three generators no node id has two \<open>visit\<close>
  events; a node id can have several \<open>enqueue\<close> events before its visit, as C has in the
  scenario under each of the three.
\<close>

theorem one_visit_per_node:
  "distinct (visit_order (bfs adj start)) \<and>
   distinct (visit_order (dfs adj start)) \<and>
   distinct (visit_order (dijkstra ns adj start)) \<and>
   enqueue_order (bfs (adjacencyList scenario_state) 0) = [1, 2, 2] \<and>
   enqueue_order (dfs (adjacencyList scenario_state) 0) = [2, 1, 2] \<and>
   enqueue_order (dijkstra (nodes scenario_state) (adjacencyList scenario_state) 0) = [1, 2, 2]"
proof -
  have "enqueue_order (bfs (adjacencyList scenario_state) 0) = [1, 2, 2]"
    "enqueue_order (dfs (adjacencyList scenario_state) 0) = [2, 1, 2]"
    "enqueue_order (dijkstra (nodes scenario_state) (adjacencyList scenario_state) 0) = [1, 2, 2]"
    by code_simp+
  then show ?thesis
    using bfs_loop_distinct[of adj "{}" "[start]"] dfs_loop_distinct[of adj "{}" "[start]"]
      dijkstra_loop_distinct[of adj _ "{}" "[(start, 0)]"]
    by (simp add: bfs_def dfs_def visit_order_dijkstra)
qed

subsection \<open>Shortest paths: the settled distances (C1)\<close>















subsection \<open>Breadth-first search visits by hop count (C3)\<close>

text \<open>\<open>hops adj start u k\<close>: some path of \<open>k\<close> edges leads from \<open>start\<close> to \<open>u\<close>. The hop count
  of a reachable node is the least such \<open>k\<close>.\<close>

inductive hops :: "adjacency \<Rightarrow> nat \<Rightarrow> nat \<Rightarrow> nat \<Rightarrow> bool" for adj start where
  hops_start: "hops adj start start 0"
| hops_step: "hops adj start u k \<Longrightarrow> (v, w) \<in> set (neighbors_of adj u) \<Longrightarrow>
                hops adj start v (Suc k)"

definition hop_count :: "adjacency \<Rightarrow> nat \<Rightarrow> nat \<Rightarrow> nat" where
  "hop_count adj start u = (LEAST k. hops adj start u k)"

definition level :: "adjacency \<Rightarrow> nat \<Rightarrow> nat \<Rightarrow> nat \<Rightarrow> bool" where
  "level adj start u k \<longleftrightarrow> hops adj start u k \<and> (\<forall>j<k. \<not> hops adj start u j)"

lemma level_hop_count: "level adj start u k \<Longrightarrow> hop_count adj start u = k"
  unfolding level_def hop_count_def
  by (intro Least_equality) (auto simp: not_less[symmetric])

lemma hops_level: "hops adj start u k \<Longrightarrow> \<exists>j\<le>k. level adj start u j"
proof -
  assume h: "hops adj start u k"
  let ?j = "LEAST j. hops adj start u j"
  from h have "hops adj start u ?j" by (rule LeastI)
  moreover have "\<forall>i<?j. \<not> hops adj start u i" using not_less_Least by blast
  moreover from h have "?j \<le> k" by (rule Least_le)
  ultimately show ?thesis unfolding level_def by blast
qed

lemma level_unique: "level adj start u j \<Longrightarrow> level adj start u k \<Longrightarrow> j = k"
  using level_hop_count by metis

lemma hops_zero: "hops adj start u 0 \<Longrightarrow> u = start"
  by (cases rule: hops.cases) auto

lemma level_start: "level adj start start 0"
  by (simp add: level_def hops_start)

lemma level_zero: "level adj start u 0 \<Longrightarrow> u = start"
  by (simp add: level_def hops_zero)

lemma level_succ:
  assumes "level adj start u k" and "(v, w) \<in> set (neighbors_of adj u)"
  shows "\<exists>j\<le>Suc k. level adj start v j"
proof -
  from assms have "hops adj start v (Suc k)" unfolding level_def by (blast intro: hops_step)
  then show ?thesis by (rule hops_level)
qed

lemma level_pred:
  assumes "level adj start v (Suc k)"
  shows "\<exists>u w. level adj start u k \<and> (v, w) \<in> set (neighbors_of adj u)"
proof -
  from assms have h: "hops adj start v (Suc k)" and min: "\<forall>j<Suc k. \<not> hops adj start v j"
    by (simp_all add: level_def)
  from h obtain u w where u: "hops adj start u k" and e: "(v, w) \<in> set (neighbors_of adj u)"
    by (cases rule: hops.cases) auto
  from hops_level[OF u] obtain j where j: "j \<le> k" "level adj start u j" by blast
  have "j = k"
  proof (rule ccontr)
    assume "j \<noteq> k"
    with j have "Suc j < Suc k" by simp
    moreover from j e have "hops adj start v (Suc j)"
      unfolding level_def by (blast intro: hops_step)
    ultimately show False using min by blast
  qed
  with j e show ?thesis by blast
qed

text \<open>
  The invariant of the loop of \<open>bfs\<close>: the queue is a part \<open>Q1\<close> of nodes of level \<open>k\<close>
  followed by a part \<open>Q2\<close> of nodes of level \<open>k + 1\<close>, but for entries already visited or
  repeated.
\<close>

definition bfs_inv ::
  "adjacency \<Rightarrow> nat \<Rightarrow> nat \<Rightarrow> nat set \<Rightarrow> nat list \<Rightarrow> nat list \<Rightarrow> bool" where
  "bfs_inv adj start k V Q1 Q2 \<longleftrightarrow>
     (\<forall>v\<in>V. \<exists>j\<le>k. level adj start v j) \<and>
     (\<forall>v j. level adj start v j \<longrightarrow> j < k \<longrightarrow> v \<in> V) \<and>
     (\<forall>x\<in>set Q1. x \<in> V \<or> level adj start x k) \<and>
     (\<forall>x\<in>set Q2. x \<in> V \<or> x \<in> set Q1 \<or> level adj start x (Suc k)) \<and>
     (\<forall>v. level adj start v k \<longrightarrow> v \<in> V \<or> v \<in> set Q1) \<and>
     (\<forall>u n w. u \<in> V \<longrightarrow> level adj start u k \<longrightarrow> (n, w) \<in> set (neighbors_of adj u) \<longrightarrow>
        level adj start n (Suc k) \<longrightarrow> n \<in> set Q2)"

lemma bfs_inv_initial: "bfs_inv adj start 0 {} [start] []"
  unfolding bfs_inv_def by (auto simp: level_start dest: level_zero)

lemma bfs_inv_shift:
  assumes inv: "bfs_inv adj start k V [] Q2"
  shows "bfs_inv adj start (Suc k) V Q2 []"
proof -
  from inv have i1: "\<forall>v\<in>V. \<exists>j\<le>k. level adj start v j"
    and i2: "\<forall>v j. level adj start v j \<longrightarrow> j < k \<longrightarrow> v \<in> V"
    and i4: "\<forall>x\<in>set Q2. x \<in> V \<or> level adj start x (Suc k)"
    and i5: "\<forall>v. level adj start v k \<longrightarrow> v \<in> V"
    and i6: "\<forall>u n w. u \<in> V \<longrightarrow> level adj start u k \<longrightarrow> (n, w) \<in> set (neighbors_of adj u) \<longrightarrow>
        level adj start n (Suc k) \<longrightarrow> n \<in> set Q2"
    unfolding bfs_inv_def by simp_all
  have 1: "\<forall>v\<in>V. \<exists>j\<le>Suc k. level adj start v j"
    using i1 le_SucI by blast
  have 2: "\<forall>v j. level adj start v j \<longrightarrow> j < Suc k \<longrightarrow> v \<in> V"
    using i2 i5 less_Suc_eq by metis
  have 3: "\<forall>x\<in>set Q2. x \<in> V \<or> level adj start x (Suc k)" by (rule i4)
  have 5: "\<forall>v. level adj start v (Suc k) \<longrightarrow> v \<in> V \<or> v \<in> set Q2"
  proof (intro allI impI)
    fix v assume v: "level adj start v (Suc k)"
    from level_pred[OF v] obtain u w where u: "level adj start u k"
      and e: "(v, w) \<in> set (neighbors_of adj u)" by blast
    from i5 u have "u \<in> V" by blast
    with i6 u e v have "v \<in> set Q2" by blast
    then show "v \<in> V \<or> v \<in> set Q2" ..
  qed
  have 6: "\<forall>u n w. u \<in> V \<longrightarrow> level adj start u (Suc k) \<longrightarrow>
        (n, w) \<in> set (neighbors_of adj u) \<longrightarrow> level adj start n (Suc (Suc k)) \<longrightarrow> n \<in> set []"
  proof (intro allI impI)
    fix u n w assume "u \<in> V" and l: "level adj start u (Suc k)"
    with i1 obtain j where "j \<le> k" "level adj start u j" by blast
    with l level_unique[of adj start u j "Suc k"] have False by simp
    then show "n \<in> set []" ..
  qed
  from 1 2 3 5 6 show ?thesis unfolding bfs_inv_def by simp
qed

lemma bfs_inv_skip:
  assumes inv: "bfs_inv adj start k V (c # Q1) Q2" and c: "c \<in> V"
  shows "bfs_inv adj start k V Q1 Q2"
  using assms unfolding bfs_inv_def by (simp, blast)

lemma bfs_inv_visit:
  assumes inv: "bfs_inv adj start k V (c # Q1) Q2" and c: "c \<notin> V"
  shows "level adj start c k"
    and "bfs_inv adj start k (insert c V) Q1 (Q2 @ bfs_offered adj V c)"
proof -
  from inv have i1: "\<forall>v\<in>V. \<exists>j\<le>k. level adj start v j"
    and i2: "\<forall>v j. level adj start v j \<longrightarrow> j < k \<longrightarrow> v \<in> V"
    and i3: "\<forall>x\<in>set (c # Q1). x \<in> V \<or> level adj start x k"
    and i4: "\<forall>x\<in>set Q2. x \<in> V \<or> x \<in> set (c # Q1) \<or> level adj start x (Suc k)"
    and i5: "\<forall>v. level adj start v k \<longrightarrow> v \<in> V \<or> v \<in> set (c # Q1)"
    and i6: "\<forall>u n w. u \<in> V \<longrightarrow> level adj start u k \<longrightarrow> (n, w) \<in> set (neighbors_of adj u) \<longrightarrow>
        level adj start n (Suc k) \<longrightarrow> n \<in> set Q2"
    unfolding bfs_inv_def by blast+
  from i3 c show lc: "level adj start c k" by simp
  have 1: "\<forall>v\<in>insert c V. \<exists>j\<le>k. level adj start v j"
    using i1 lc by auto
  have 2: "\<forall>v j. level adj start v j \<longrightarrow> j < k \<longrightarrow> v \<in> insert c V"
    using i2 by blast
  have 3: "\<forall>x\<in>set Q1. x \<in> insert c V \<or> level adj start x k"
    using i3 by simp
  have 4: "\<forall>x\<in>set (Q2 @ bfs_offered adj V c).
             x \<in> insert c V \<or> x \<in> set Q1 \<or> level adj start x (Suc k)"
  proof
    fix x assume "x \<in> set (Q2 @ bfs_offered adj V c)"
    then consider "x \<in> set Q2" | "x \<in> set (bfs_offered adj V c)" by auto
    then show "x \<in> insert c V \<or> x \<in> set Q1 \<or> level adj start x (Suc k)"
    proof cases
      case 1
      with i4 show ?thesis by auto
    next
      case 2
      then obtain w where e: "(x, w) \<in> set (neighbors_of adj c)" and x: "x \<notin> insert c V"
        unfolding set_bfs_offered by blast
      from level_succ[OF lc e] obtain j where j: "j \<le> Suc k" "level adj start x j" by blast
      from i2 j(2) x have "\<not> j < k" by blast
      with j(1) have "j = k \<or> j = Suc k" by arith
      then show ?thesis
      proof
        assume "j = k"
        with j(2) i5 have "x \<in> V \<or> x \<in> set (c # Q1)" by blast
        with x show ?thesis by auto
      next
        assume "j = Suc k"
        with j(2) show ?thesis by simp
      qed
    qed
  qed
  have 5: "\<forall>v. level adj start v k \<longrightarrow> v \<in> insert c V \<or> v \<in> set Q1"
    using i5 by auto
  have 6: "\<forall>u n w. u \<in> insert c V \<longrightarrow> level adj start u k \<longrightarrow>
        (n, w) \<in> set (neighbors_of adj u) \<longrightarrow> level adj start n (Suc k) \<longrightarrow>
        n \<in> set (Q2 @ bfs_offered adj V c)"
  proof (intro allI impI)
    fix u n w assume u: "u \<in> insert c V" and lu: "level adj start u k"
      and e: "(n, w) \<in> set (neighbors_of adj u)" and ln: "level adj start n (Suc k)"
    show "n \<in> set (Q2 @ bfs_offered adj V c)"
    proof (cases "u = c")
      case True
      have "n \<notin> insert c V"
      proof
        assume "n \<in> insert c V"
        with 1 obtain j where "j \<le> k" "level adj start n j" by blast
        with ln level_unique[of adj start n j "Suc k"] show False by simp
      qed
      with e True have "n \<in> set (bfs_offered adj V c)" unfolding set_bfs_offered by blast
      then show ?thesis by simp
    next
      case False
      with u have "u \<in> V" by simp
      with i6 lu e ln have "n \<in> set Q2" by blast
      then show ?thesis by simp
    qed
  qed
  from 1 2 3 4 5 6 show "bfs_inv adj start k (insert c V) Q1 (Q2 @ bfs_offered adj V c)"
    unfolding bfs_inv_def by (intro conjI)
qed

lemma bfs_inv_front:
  assumes "bfs_inv adj start k V Q1 Q2" and "Q1 @ Q2 = c # q"
  shows "\<exists>k' Q1' Q2'. k \<le> k' \<and> bfs_inv adj start k' V (c # Q1') Q2' \<and> q = Q1' @ Q2'"
proof (cases Q1)
  case Nil
  with assms have "bfs_inv adj start (Suc k) V (c # q) []"
    using bfs_inv_shift[of adj start k V Q2] by simp
  then have "k \<le> Suc k \<and> bfs_inv adj start (Suc k) V (c # q) [] \<and> q = q @ []" by simp
  then show ?thesis by blast
next
  case (Cons a Q1')
  with assms have "k \<le> k \<and> bfs_inv adj start k V (c # Q1') Q2 \<and> q = Q1' @ Q2" by simp
  then show ?thesis by blast
qed

lemma bfs_loop_levels:
  "bfs_inv adj start k V Q1 Q2 \<Longrightarrow> q = Q1 @ Q2 \<Longrightarrow>
     sorted (map (hop_count adj start) (visit_order (bfs_loop adj V q))) \<and>
     (\<forall>x\<in>set (visit_order (bfs_loop adj V q)). k \<le> hop_count adj start x)"
proof (induction adj V q arbitrary: k Q1 Q2 rule: bfs_loop_induct)
  case (Nil adj V)
  show ?case by (simp add: bfs_loop_Nil visit_order_Nil)
next
  case (skip adj V c q)
  from bfs_inv_front[OF skip.prems(1) skip.prems(2)[symmetric]]
  obtain k' Q1' Q2' where k': "k \<le> k'" and inv: "bfs_inv adj start k' V (c # Q1') Q2'"
    and q: "q = Q1' @ Q2'" by blast
  from skip.IH[OF bfs_inv_skip[OF inv skip.hyps] q] k' show ?case
    unfolding bfs_loop_skip[OF skip.hyps] by fastforce
next
  case (visit adj V c q)
  from bfs_inv_front[OF visit.prems(1) visit.prems(2)[symmetric]]
  obtain k' Q1' Q2' where k': "k \<le> k'" and inv: "bfs_inv adj start k' V (c # Q1') Q2'"
    and q: "q = Q1' @ Q2'" by blast
  note v = bfs_inv_visit[OF inv visit.hyps]
  from q have q': "q @ bfs_offered adj V c = Q1' @ (Q2' @ bfs_offered adj V c)" by simp
  from visit.IH[OF v(2) q'] level_hop_count[OF v(1)] k' show ?case
    unfolding bfs_loop_visit[OF visit.hyps] by fastforce
qed

lemma bfs_visited_hops:
  assumes "u \<in> set (visit_order (bfs adj start))"
  shows "hops adj start u (hop_count adj start u)"
proof -
  from assms have "reachable adj start u" by (simp add: bfs_visits_reachable)
  then have "\<exists>k. hops adj start u k"
  proof induction
    case reachable_start
    show ?case using hops_start by blast
  next
    case (reachable_step u v w)
    then show ?case using hops_step by blast
  qed
  then show ?thesis unfolding hop_count_def by (blast intro: LeastI)
qed

text \<open>
  C3: for every adjacency map and start id, the hop counts of the nodes in the order
  of their \<open>visit\<close> events in the sequence of \<open>bfs\<close> never decrease; each visited node is
  reached by a path of as many edges as its hop count, and by no shorter one.
\<close>

theorem bfs_visits_in_hop_order:
  "sorted (map (hop_count adj start) (visit_order (bfs adj start))) \<and>
   (\<forall>u\<in>set (visit_order (bfs adj start)). level adj start u (hop_count adj start u))"
proof -
  have "sorted (map (hop_count adj start) (visit_order (bfs_loop adj {} [start]))) \<and>
     (\<forall>x\<in>set (visit_order (bfs_loop adj {} [start])). 0 \<le> hop_count adj start x)"
    by (rule bfs_loop_levels[OF bfs_inv_initial]) simp
  then have "sorted (map (hop_count adj start) (visit_order (bfs adj start)))"
    by (simp add: bfs_def)
  moreover have "level adj start u (hop_count adj start u)"
    if "u \<in> set (visit_order (bfs adj start))" for u
  proof -
    from hops_level[OF bfs_visited_hops[OF that]] obtain j where j: "level adj start u j"
      by blast
    with level_hop_count[OF j] show ?thesis by simp
  qed
  ultimately show ?thesis by blast
qed

theorem bfs_visits_in_hop_order_witness:
  "visit_order (bfs (adjacencyList scenario_state) 0) = [0, 1, 2] \<and>
   map (hop_count (adjacencyList scenario_state) 0) [0, 1, 2] = [0, 1, 1]"
proof -
  let ?adj = "adjacencyList scenario_state"
  have v: "visit_order (bfs ?adj 0) = [0, 1, 2]" by code_simp
  have n: "neighbors_of ?adj 0 = [(1, 1), (2, 4)]" by code_simp
  from bfs_visits_in_hop_order[of ?adj 0] v
  have s: "sorted (map (hop_count ?adj 0) [0, 1, 2])"
    and l: "level ?adj 0 1 (hop_count ?adj 0 1)" "level ?adj 0 2 (hop_count ?adj 0 2)"
    by simp_all
  have h0: "hop_count ?adj 0 0 = 0" by (rule level_hop_count[OF level_start])
  have "hops ?adj 0 1 (Suc 0)" "hops ?adj 0 2 (Suc 0)"
    by (rule hops_step[OF hops_start], simp add: n)+
  with l have "hop_count ?adj 0 1 \<le> 1" "hop_count ?adj 0 2 \<le> 1"
    unfolding level_def by (metis One_nat_def not_less)+
  moreover have "hop_count ?adj 0 1 \<noteq> 0"
  proof
    assume "hop_count ?adj 0 1 = 0"
    with l(1) have "level ?adj 0 1 0" by simp
    from level_zero[OF this] show False by simp
  qed
  moreover have "hop_count ?adj 0 2 \<noteq> 0"
  proof
    assume "hop_count ?adj 0 2 = 0"
    with l(2) have "level ?adj 0 2 0" by simp
    from level_zero[OF this] show False by simp
  qed
  ultimately have "hop_count ?adj 0 1 = 1" "hop_count ?adj 0 2 = 1" by simp_all
  with h0 v show ?thesis by simp
qed

subsection \<open>The store keeps the neighbours known\<close>

text \<open>The hypothesis \<open>neighbours_known\<close> of the theorems on \<open>dijkstra\<close> holds in the initial
  state and is kept by every operation of the store and of the playback, when
  \<open>createEdge\<close> is given two nodes of the node list, as its callers do.\<close>

lemma set_update_subset: "set (AList.update k v al) \<subseteq> insert (k, v) (set al)"
  by (induction al) auto

lemma neighbours_known_initial:
  "neighbours_known (nodes initial_state) (adjacencyList initial_state)"
  by (simp add: neighbours_known_def initial_state_def)

lemma neighbours_known_addNode:
  assumes "neighbours_known (nodes s) (adjacencyList s)"
  shows "neighbours_known (nodes (addNode x y s)) (adjacencyList (addNode x y s))"
  unfolding neighbours_known_def
proof (intro ballI)
  fix q p assume q: "q \<in> set (adjacencyList (addNode x y s))" and p: "p \<in> set (snd q)"
  from q set_update_subset[of "nodeIdCounter s" "[]" "adjacencyList s"]
  have "q = (nodeIdCounter s, []) \<or> q \<in> set (adjacencyList s)"
    by (auto simp: addNode_def Let_def)
  with p have "q \<in> set (adjacencyList s)" by auto
  with assms p have "fst p \<in> node_id ` set (nodes s)" by (simp add: neighbours_known_def)
  then show "fst p \<in> node_id ` set (nodes (addNode x y s))"
    by (simp add: addNode_def Let_def)
qed

lemma neighbours_known_update:
  assumes "neighbours_known ns adj" and "map_of adj k = Some es" and "n \<in> node_id ` set ns"
  shows "neighbours_known ns (AList.update k (es @ [(n, w)]) adj)"
  unfolding neighbours_known_def
proof (intro ballI)
  fix q p assume q: "q \<in> set (AList.update k (es @ [(n, w)]) adj)" and p: "p \<in> set (snd q)"
  from q set_update_subset[of k "es @ [(n, w)]" adj]
  have "q = (k, es @ [(n, w)]) \<or> q \<in> set adj" by auto
  then show "fst p \<in> node_id ` set ns"
  proof
    assume "q \<in> set adj"
    with assms(1) p show ?thesis by (simp add: neighbours_known_def)
  next
    assume e: "q = (k, es @ [(n, w)])"
    from assms(2) have "(k, es) \<in> set adj" by (rule map_of_SomeD)
    with assms(1) have "\<forall>p\<in>set es. fst p \<in> node_id ` set ns"
      by (fastforce simp: neighbours_known_def)
    with e p assms(3) show ?thesis by auto
  qed
qed

lemma neighbours_known_createEdge:
  assumes k: "neighbours_known (nodes s) (adjacencyList s)"
    and f: "from \<in> node_ids s" and t: "to \<in> node_ids s"
    and r: "createEdge c from to w s = Inr s'"
  shows "neighbours_known (nodes s') (adjacencyList s')"
proof (cases "list_ex (edge_matches c from to) (edges s)")
  case True
  with r have "s' = s\<lparr>selectedNode := None\<rparr>" by (simp add: createEdge_def)
  with k show ?thesis by simp
next
  case False
  with r obtain fs where fs: "map_of (adjacencyList s) from = Some fs"
    by (cases "map_of (adjacencyList s) from") (simp_all add: createEdge_def)
  let ?adj1 = "AList.update from (fs @ [(to, w)]) (adjacencyList s)"
  from t have k1: "neighbours_known (nodes s) ?adj1"
    by (intro neighbours_known_update[OF k fs]) (simp add: node_ids_def)
  show ?thesis
  proof (cases "graphType c = Undirected")
    case dir: False
    with r False fs have "nodes s' = nodes s" "adjacencyList s' = ?adj1"
      by (auto simp: createEdge_def Let_def)
    with k1 show ?thesis by simp
  next
    case True
    with r False fs obtain ts where ts: "map_of ?adj1 to = Some ts"
      by (cases "map_of ?adj1 to") (simp_all add: createEdge_def Let_def)
    with r False fs True have "nodes s' = nodes s"
      "adjacencyList s' = AList.update to (ts @ [(from, w)]) ?adj1"
      by (auto simp: createEdge_def Let_def)
    moreover from f have "neighbours_known (nodes s) (AList.update to (ts @ [(from, w)]) ?adj1)"
      by (intro neighbours_known_update[OF k1 ts]) (simp add: node_ids_def)
    ultimately show ?thesis by simp
  qed
qed

lemma neighbours_known_deleteNode:
  assumes "neighbours_known (nodes s) (adjacencyList s)"
  shows "neighbours_known (nodes (deleteNode i s)) (adjacencyList (deleteNode i s))"
  unfolding neighbours_known_def
proof (intro ballI)
  fix q p assume "q \<in> set (adjacencyList (deleteNode i s))" and p: "p \<in> set (snd q)"
  then obtain k ms where ms: "(k, ms) \<in> set (adjacencyList s)"
    and q: "q = (k, filter (\<lambda>(n, w). n \<noteq> i) ms)"
    unfolding adjacency_deleteNode by auto
  from p q have "p \<in> set ms" and "fst p \<noteq> i" by (auto simp: split_beta)
  with assms ms have "fst p \<in> node_id ` set (nodes s) - {i}"
    by (fastforce simp: neighbours_known_def)
  then show "fst p \<in> node_id ` set (nodes (deleteNode i s))"
    using node_ids_deleteNode[of i s] by (simp add: node_ids_def)
qed

lemma neighbours_known_clearGraph:
  "neighbours_known (nodes (clearGraph s)) (adjacencyList (clearGraph s))"
  by (simp add: neighbours_known_def clearGraph_def resetTraversal_def)

lemma node_ids_update_first:
  "(\<And>n. node_id (f n) = node_id n) \<Longrightarrow>
     node_id ` set (update_first P f ns) = node_id ` set ns"
  by (induction ns) auto

lemma neighbours_known_resetTraversal:
  assumes "neighbours_known (nodes s) (adjacencyList s)"
  shows "neighbours_known (nodes (resetTraversal s)) (adjacencyList (resetTraversal s))"
proof -
  have "node_id ` set (nodes (resetTraversal s)) = node_id ` set (nodes s)"
    by (simp add: resetTraversal_def image_comp o_def)
  with assms show ?thesis by (simp add: neighbours_known_def resetTraversal_def)
qed

lemma neighbours_known_executeStep:
  assumes "neighbours_known (nodes s) (adjacencyList s)"
  shows "neighbours_known (nodes (executeStep c ev s)) (adjacencyList (executeStep c ev s))"
proof -
  have d: "node_id ` set (map demote (nodes s)) = node_id ` set (nodes s)"
    by (simp add: image_comp o_def demote_id)
  have u: "node_id ` set (update_first P f (map demote (nodes s))) = node_id ` set (nodes s)"
    if "\<And>n. node_id (f n) = node_id n" for P f
    using node_ids_update_first[OF that, of P "map demote (nodes s)"] d by simp
  have "node_id ` set (nodes (executeStep c ev s)) = node_id ` set (nodes s)"
    by (cases ev) (simp_all add: Let_def u with_distance_def split: option.splits)
  moreover have "adjacencyList (executeStep c ev s) = adjacencyList s"
    by (cases ev) (simp_all add: Let_def)
  ultimately show ?thesis using assms by (simp add: neighbours_known_def)
qed

end
